theory Spec2Isabelle
  imports Main "HOL-Library.Word"
begin

unbundle bit_operations_syntax

section \<open>Outcomes of kernel code\<close>

text \<open>
  The kernel is modelled as seen by one hart running one kernel thread. A kernel
  function either returns, or stops in \<open>panic\<close> (which prints its message and
  halts), or never returns because it busy-waits or sleeps for an event that only
  another hart or process could produce (\<open>Hang\<close>), or leaves the behaviour C defines
  (\<open>Undefined\<close>: a store past the end of an array, a pointer past the address space).
\<close>

datatype halt = Panic string | Hang | Undefined string

section \<open>ELF segment flags (exec.c)\<close>

text \<open>
  \<open>flags2perm\<close> of exec.c. The PTE bit masks \<open>PTE_X\<close> and \<open>PTE_W\<close> come from
  riscv.h, which is not among the sources: they are parameters \<open>ptex\<close> and \<open>ptew\<close>.
\<close>

definition flags2perm :: "32 word \<Rightarrow> 32 word \<Rightarrow> 32 word \<Rightarrow> 32 word" where
  "flags2perm ptex ptew flags =
     (let perm = 0;
          perm = (if flags AND 1 \<noteq> 0 then ptex else perm);
          perm = (if flags AND 2 \<noteq> 0 then perm OR ptew else perm)
      in perm)"

section \<open>Spin locks and per-CPU interrupt nesting (spinlock.c)\<close>

text \<open>
  \<open>struct cpu\<close> of proc.h, restricted to the fields spinlock.c uses, together with
  the identity of the hart (what \<open>mycpu()\<close> points to) and the hart's interrupt-enable
  bit, which \<open>intr_get\<close>, \<open>intr_on\<close> and \<open>intr_off\<close> of riscv.h read and write.
\<close>

record cpu =
  hartid :: nat
  noff :: int
  intena :: bool
  intr :: bool

text \<open>\<open>struct spinlock\<close>: \<open>owner\<close> is the field \<open>cpu\<close>, \<open>None\<close> the null pointer.\<close>

record spinlock =
  locked :: "32 word"
  owner :: "nat option"

definition initlock :: spinlock where
  "initlock = \<lparr>locked = 0, owner = None\<rparr>"

definition holding :: "spinlock \<Rightarrow> cpu \<Rightarrow> bool" where
  "holding lk c = (locked lk \<noteq> 0 \<and> owner lk = Some (hartid c))"

definition push_off :: "cpu \<Rightarrow> cpu" where
  "push_off c =
     (let old = intr c;
          c = c\<lparr>intr := False\<rparr>;
          c = (if noff c = 0 then c\<lparr>intena := old\<rparr> else c)
      in c\<lparr>noff := noff c + 1\<rparr>)"

definition pop_off :: "cpu \<Rightarrow> halt + cpu" where
  "pop_off c =
     (if intr c then Inl (Panic ''pop_off - interruptible'')
      else if noff c < 1 then Inl (Panic ''pop_off'')
      else let c = c\<lparr>noff := noff c - 1\<rparr>
           in if noff c = 0 \<and> intena c then Inr (c\<lparr>intr := True\<rparr>) else Inr c)"

text \<open>
  The busy-wait of \<open>acquire\<close>: \<open>__sync_lock_test_and_set(&lk->locked, 1)\<close> stores 1
  and yields the old value; the loop goes on while that is not 0. On one hart
  nothing clears the word meanwhile, so the loop has no result (\<open>None\<close>) when the
  lock is taken.
\<close>

partial_function (option) spin :: "spinlock \<Rightarrow> spinlock option" where
  "spin lk = (if locked lk \<noteq> 0 then spin (lk\<lparr>locked := 1\<rparr>) else Some (lk\<lparr>locked := 1\<rparr>))"

definition acquire :: "spinlock \<Rightarrow> cpu \<Rightarrow> halt + (spinlock \<times> cpu)" where
  "acquire lk c =
     (let c = push_off c
      in if holding lk c then Inl (Panic ''acquire'')
         else case spin lk of
                None \<Rightarrow> Inl Hang
              | Some lk \<Rightarrow> Inr (lk\<lparr>owner := Some (hartid c)\<rparr>, c))"

definition release :: "spinlock \<Rightarrow> cpu \<Rightarrow> halt + (spinlock \<times> cpu)" where
  "release lk c =
     (if \<not> holding lk c then Inl (Panic ''release'')
      else let lk = lk\<lparr>owner := None\<rparr>;
               lk = lk\<lparr>locked := 0\<rparr>
           in case pop_off c of Inl e \<Rightarrow> Inl e | Inr c \<Rightarrow> Inr (lk, c))"

text \<open>
  Sequences of spin-lock operations of one hart on a store of locks, each lock
  named by its address.
\<close>

datatype spin_op = Push_off | Pop_off | Acquire nat | Release nat

fun spin_step :: "spin_op \<Rightarrow> cpu \<times> (nat \<Rightarrow> spinlock) \<Rightarrow> halt + cpu \<times> (nat \<Rightarrow> spinlock)" where
  "spin_step Push_off (c, ls) = Inr (push_off c, ls)"
| "spin_step Pop_off (c, ls) = (case pop_off c of Inl e \<Rightarrow> Inl e | Inr c \<Rightarrow> Inr (c, ls))"
| "spin_step (Acquire a) (c, ls) =
     (case acquire (ls a) c of Inl e \<Rightarrow> Inl e | Inr (lk, c) \<Rightarrow> Inr (c, ls(a := lk)))"
| "spin_step (Release a) (c, ls) =
     (case release (ls a) c of Inl e \<Rightarrow> Inl e | Inr (lk, c) \<Rightarrow> Inr (c, ls(a := lk)))"

fun spin_run :: "spin_op list \<Rightarrow> cpu \<times> (nat \<Rightarrow> spinlock) \<Rightarrow> halt + cpu \<times> (nat \<Rightarrow> spinlock)" where
  "spin_run [] s = Inr s"
| "spin_run (x # xs) s = (case spin_step x s of Inl e \<Rightarrow> Inl e | Inr s \<Rightarrow> spin_run xs s)"

definition intr_inv :: "cpu \<Rightarrow> bool" where
  "intr_inv c = (0 < noff c \<longrightarrow> \<not> intr c)"


section \<open>Scheduler interface\<close>

text \<open>
  What the core uses of the running kernel thread: its hart, the pid of its process
  (\<open>myproc()->pid\<close>), and for every other process the wait channel it is parked on,
  if any. A wait channel is a kernel address: \<open>Lock_of_buf i\<close> is the address of
  the sleep lock of buffer \<open>i\<close> of the buffer cache, \<open>Nread_of_pipe\<close> and
  \<open>Nwrite_of_pipe\<close> are \<open>&pi->nread\<close> and \<open>&pi->nwrite\<close> of the pipe at hand.
\<close>

datatype chan = Lock_of_buf nat | Nread_of_pipe | Nwrite_of_pipe | Chan nat

record kctx =
  mycpu :: cpu
  mypid :: int
  parked :: "int \<Rightarrow> chan option"

text \<open>
  Modelled from the spec: \<open>wakeup\<close> of the scheduler (proc.c is not among the
  sources), "marks all parked-on-chan runnable".
\<close>

definition wakeup :: "chan \<Rightarrow> kctx \<Rightarrow> kctx" where
  "wakeup ch k = k\<lparr>parked := (\<lambda>p. if parked k p = Some ch then None else parked k p)\<rparr>"

section \<open>Sleep locks (sleeplock.c)\<close>

text \<open>\<open>struct sleeplock\<close> of sleeplock.h: the inner spin lock, \<open>locked\<close> and \<open>pid\<close>.\<close>

record sleeplock =
  lk :: spinlock
  slocked :: "32 word"
  spid :: int

definition initsleeplock :: sleeplock where
  "initsleeplock = \<lparr>lk = initlock, slocked = 0, spid = 0\<rparr>"

text \<open>
  \<open>sleep(lk, &lk->lk)\<close> parks the caller until another process calls \<open>wakeup\<close>;
  with one kernel thread running, a caller that finds the lock taken never returns.
\<close>

definition acquiresleep :: "sleeplock \<Rightarrow> kctx \<Rightarrow> halt + (sleeplock \<times> kctx)" where
  "acquiresleep l k =
     (case acquire (lk l) (mycpu k) of
        Inl e \<Rightarrow> Inl e
      | Inr (sl, c) \<Rightarrow>
          let l = l\<lparr>lk := sl\<rparr>; k = k\<lparr>mycpu := c\<rparr>
          in if slocked l \<noteq> 0 then Inl Hang
             else let l = l\<lparr>slocked := 1\<rparr>;
                      l = l\<lparr>spid := mypid k\<rparr>
                  in case release (lk l) (mycpu k) of
                       Inl e \<Rightarrow> Inl e
                     | Inr (sl, c) \<Rightarrow> Inr (l\<lparr>lk := sl\<rparr>, k\<lparr>mycpu := c\<rparr>))"

definition releasesleep :: "chan \<Rightarrow> sleeplock \<Rightarrow> kctx \<Rightarrow> halt + (sleeplock \<times> kctx)" where
  "releasesleep a l k =
     (case acquire (lk l) (mycpu k) of
        Inl e \<Rightarrow> Inl e
      | Inr (sl, c) \<Rightarrow>
          let l = l\<lparr>lk := sl\<rparr>; k = k\<lparr>mycpu := c\<rparr>;
              l = l\<lparr>slocked := 0\<rparr>;
              l = l\<lparr>spid := 0\<rparr>;
              k = wakeup a k
          in case release (lk l) (mycpu k) of
               Inl e \<Rightarrow> Inl e
             | Inr (sl, c) \<Rightarrow> Inr (l\<lparr>lk := sl\<rparr>, k\<lparr>mycpu := c\<rparr>))"

definition holdingsleep :: "sleeplock \<Rightarrow> kctx \<Rightarrow> halt + (bool \<times> sleeplock \<times> kctx)" where
  "holdingsleep l k =
     (case acquire (lk l) (mycpu k) of
        Inl e \<Rightarrow> Inl e
      | Inr (sl, c) \<Rightarrow>
          let l = l\<lparr>lk := sl\<rparr>; k = k\<lparr>mycpu := c\<rparr>;
              r = (slocked l \<noteq> 0 \<and> spid l = mypid k)
          in case release (lk l) (mycpu k) of
               Inl e \<Rightarrow> Inl e
             | Inr (sl, c) \<Rightarrow> Inr (r, l\<lparr>lk := sl\<rparr>, k\<lparr>mycpu := c\<rparr>))"

section \<open>Buffer cache (bio.c)\<close>

text \<open>
  \<open>struct buf\<close> of buf.h. A block's \<open>data\<close> is read as its sequence of 32-bit
  words, word \<open>w\<close> at bytes \<open>4w .. 4w+3\<close>: that is how log.c reads the header block,
  and the cache itself only moves whole blocks. The links \<open>prev\<close> and \<open>next\<close> are
  the list \<open>lru\<close> of the cache below.
\<close>

record buf =
  valid :: bool
  dev :: "32 word"
  blockno :: "32 word"
  lock :: sleeplock
  refcnt :: "32 word"
  data :: "nat \<Rightarrow> 32 word"

text \<open>
  The state bio.c works on: the calling thread, \<open>bcache.lock\<close>, the array
  \<open>bcache.buf\<close> indexed from 0, and the doubly linked list through \<open>bcache.head\<close>
  as the list \<open>lru\<close> of buffer indices from \<open>head.next\<close> (most recently used) to
  \<open>head.prev\<close> (least recently used). Behind the cache is the disk driver, with the
  content of every block of every device and the sequence of block writes it was
  asked for.
\<close>

record kstate =
  ctx :: kctx
  bcache_lock :: spinlock
  bufs :: "nat \<Rightarrow> buf"
  lru :: "nat list"
  disk :: "32 word \<times> 32 word \<Rightarrow> nat \<Rightarrow> 32 word"
  writes :: "(32 word \<times> 32 word \<times> (nat \<Rightarrow> 32 word)) list"

text \<open>
  Modelled from the spec: \<open>virtio_disk_rw(buf, writing)\<close> of the disk driver
  (virtio_disk.c is not among the sources), which reads the buffer's block from
  disk into its data or writes its data to disk, synchronously.
\<close>

definition virtio_disk_rw :: "nat \<Rightarrow> bool \<Rightarrow> kstate \<Rightarrow> kstate" where
  "virtio_disk_rw b writing s =
     (let bf = bufs s b
      in if writing
         then s\<lparr>disk := (disk s)((dev bf, blockno bf) := data bf),
                writes := writes s @ [(dev bf, blockno bf, data bf)]\<rparr>
         else s\<lparr>bufs := (bufs s)(b := bf\<lparr>data := disk s (dev bf, blockno bf)\<rparr>)\<rparr>)"

text \<open>Taking and dropping \<open>bcache.lock\<close>, and the sleep-lock calls on buffer \<open>b\<close>.\<close>

definition acquire_bcache :: "kstate \<Rightarrow> halt + kstate" where
  "acquire_bcache s =
     (case acquire (bcache_lock s) (mycpu (ctx s)) of
        Inl e \<Rightarrow> Inl e
      | Inr (l, c) \<Rightarrow> Inr (s\<lparr>bcache_lock := l, ctx := (ctx s)\<lparr>mycpu := c\<rparr>\<rparr>))"

definition release_bcache :: "kstate \<Rightarrow> halt + kstate" where
  "release_bcache s =
     (case release (bcache_lock s) (mycpu (ctx s)) of
        Inl e \<Rightarrow> Inl e
      | Inr (l, c) \<Rightarrow> Inr (s\<lparr>bcache_lock := l, ctx := (ctx s)\<lparr>mycpu := c\<rparr>\<rparr>))"

definition acquiresleep_buf :: "nat \<Rightarrow> kstate \<Rightarrow> halt + kstate" where
  "acquiresleep_buf b s =
     (case acquiresleep (lock (bufs s b)) (ctx s) of
        Inl e \<Rightarrow> Inl e
      | Inr (l, k) \<Rightarrow> Inr (s\<lparr>bufs := (bufs s)(b := (bufs s b)\<lparr>lock := l\<rparr>), ctx := k\<rparr>))"

definition releasesleep_buf :: "nat \<Rightarrow> kstate \<Rightarrow> halt + kstate" where
  "releasesleep_buf b s =
     (case releasesleep (Lock_of_buf b) (lock (bufs s b)) (ctx s) of
        Inl e \<Rightarrow> Inl e
      | Inr (l, k) \<Rightarrow> Inr (s\<lparr>bufs := (bufs s)(b := (bufs s b)\<lparr>lock := l\<rparr>), ctx := k\<rparr>))"

definition holdingsleep_buf :: "nat \<Rightarrow> kstate \<Rightarrow> halt + (bool \<times> kstate)" where
  "holdingsleep_buf b s =
     (case holdingsleep (lock (bufs s b)) (ctx s) of
        Inl e \<Rightarrow> Inl e
      | Inr (r, l, k) \<Rightarrow> Inr (r, s\<lparr>bufs := (bufs s)(b := (bufs s b)\<lparr>lock := l\<rparr>), ctx := k\<rparr>))"

text \<open>
  \<open>binit\<close> links the \<open>NBUF\<close> buffers of the array, each at the head of the list, so
  that buffer 0 ends at the least recently used end. It leaves the other fields of
  the buffers as they are (zero, the array being static).
\<close>

definition binit :: "nat \<Rightarrow> kstate \<Rightarrow> kstate" where
  "binit NBUF s =
     (let s = s\<lparr>bcache_lock := initlock\<rparr>;
          s = s\<lparr>lru := []\<rparr>
      in fold (\<lambda>b s. s\<lparr>bufs := (bufs s)(b := (bufs s b)\<lparr>lock := initsleeplock\<rparr>),
                        lru := b # lru s\<rparr>) [0..<NBUF] s)"

definition bget :: "32 word \<Rightarrow> 32 word \<Rightarrow> kstate \<Rightarrow> halt + (nat \<times> kstate)" where
  "bget d bno s =
     (case acquire_bcache s of
        Inl e \<Rightarrow> Inl e
      | Inr s \<Rightarrow>
          (case find (\<lambda>b. dev (bufs s b) = d \<and> blockno (bufs s b) = bno) (lru s) of
             Some b \<Rightarrow>
               let s = s\<lparr>bufs := (bufs s)(b := (bufs s b)\<lparr>refcnt := refcnt (bufs s b) + 1\<rparr>)\<rparr>
               in (case release_bcache s of
                     Inl e \<Rightarrow> Inl e
                   | Inr s \<Rightarrow>
                       (case acquiresleep_buf b s of Inl e \<Rightarrow> Inl e | Inr s \<Rightarrow> Inr (b, s)))
           | None \<Rightarrow>
               (case find (\<lambda>b. refcnt (bufs s b) = 0) (rev (lru s)) of
                  Some b \<Rightarrow>
                    let s = s\<lparr>bufs := (bufs s)(b := (bufs s b)
                                 \<lparr>dev := d, blockno := bno, valid := False, refcnt := 1\<rparr>)\<rparr>
                    in (case release_bcache s of
                          Inl e \<Rightarrow> Inl e
                        | Inr s \<Rightarrow>
                            (case acquiresleep_buf b s of Inl e \<Rightarrow> Inl e | Inr s \<Rightarrow> Inr (b, s)))
                | None \<Rightarrow> Inl (Panic ''bget: no buffers''))))"

definition bread :: "32 word \<Rightarrow> 32 word \<Rightarrow> kstate \<Rightarrow> halt + (nat \<times> kstate)" where
  "bread d bno s =
     (case bget d bno s of
        Inl e \<Rightarrow> Inl e
      | Inr (b, s) \<Rightarrow>
          if \<not> valid (bufs s b)
          then let s = virtio_disk_rw b False s
               in Inr (b, s\<lparr>bufs := (bufs s)(b := (bufs s b)\<lparr>valid := True\<rparr>)\<rparr>)
          else Inr (b, s))"

definition bwrite :: "nat \<Rightarrow> kstate \<Rightarrow> halt + kstate" where
  "bwrite b s =
     (case holdingsleep_buf b s of
        Inl e \<Rightarrow> Inl e
      | Inr (h, s) \<Rightarrow>
          if \<not> h then Inl (Panic ''bwrite'') else Inr (virtio_disk_rw b True s))"

definition brelse :: "nat \<Rightarrow> kstate \<Rightarrow> halt + kstate" where
  "brelse b s =
     (case holdingsleep_buf b s of
        Inl e \<Rightarrow> Inl e
      | Inr (h, s) \<Rightarrow>
          if \<not> h then Inl (Panic ''brelse'')
          else (case releasesleep_buf b s of
                  Inl e \<Rightarrow> Inl e
                | Inr s \<Rightarrow>
                    (case acquire_bcache s of
                       Inl e \<Rightarrow> Inl e
                     | Inr s \<Rightarrow>
                         let s = s\<lparr>bufs := (bufs s)(b := (bufs s b)\<lparr>refcnt := refcnt (bufs s b) - 1\<rparr>)\<rparr>;
                             s = (if refcnt (bufs s b) = 0
                                  then s\<lparr>lru := b # remove1 b (lru s)\<rparr> else s)
                         in release_bcache s)))"

definition bpin :: "nat \<Rightarrow> kstate \<Rightarrow> halt + kstate" where
  "bpin b s =
     (case acquire_bcache s of
        Inl e \<Rightarrow> Inl e
      | Inr s \<Rightarrow>
          release_bcache (s\<lparr>bufs := (bufs s)(b := (bufs s b)\<lparr>refcnt := refcnt (bufs s b) + 1\<rparr>)\<rparr>))"

definition bunpin :: "nat \<Rightarrow> kstate \<Rightarrow> halt + kstate" where
  "bunpin b s =
     (case acquire_bcache s of
        Inl e \<Rightarrow> Inl e
      | Inr s \<Rightarrow>
          release_bcache (s\<lparr>bufs := (bufs s)(b := (bufs s b)\<lparr>refcnt := refcnt (bufs s b) - 1\<rparr>)\<rparr>))"

text \<open>
  The cache before \<open>binit\<close>: \<open>bcache\<close> is a static object, so every field is zero.
  The thread is that of a process \<open>p\<close> on hart 0 with interrupts on and no lock held,
  no other process is parked, and \<open>d\<close> is the content of the disk.
\<close>

definition zero_buf :: buf where
  "zero_buf = \<lparr>valid = False, dev = 0, blockno = 0,
     lock = \<lparr>lk = \<lparr>locked = 0, owner = None\<rparr>, slocked = 0, spid = 0\<rparr>,
     refcnt = 0, data = (\<lambda>w. 0)\<rparr>"

definition zero_kstate :: "int \<Rightarrow> (32 word \<times> 32 word \<Rightarrow> nat \<Rightarrow> 32 word) \<Rightarrow> kstate" where
  "zero_kstate p d =
     \<lparr>ctx = \<lparr>mycpu = \<lparr>hartid = 0, noff = 0, intena = False, intr = True\<rparr>,
              mypid = p, parked = (\<lambda>q. None)\<rparr>,
      bcache_lock = \<lparr>locked = 0, owner = None\<rparr>,
      bufs = (\<lambda>b. zero_buf), lru = [], disk = d, writes = []\<rparr>"


section \<open>Redo log (log.c)\<close>

text \<open>
  \<open>struct log\<close> with its \<open>struct logheader\<close> (\<open>lh_n\<close>, \<open>lh_block\<close>). The C
  \<open>int\<close>s are integers: the counters stay far from the ends of the \<open>int\<close> range,
  where C leaves signed arithmetic undefined. An \<open>int\<close> passed for a \<open>uint\<close>
  block or device number is converted by \<open>word_of_int\<close>. The entries of \<open>block[]\<close>
  are kept as their 32 bits, which is what the conversions between \<open>int\<close> and \<open>uint\<close>
  preserve when a block number is stored, compared or passed on.
\<close>

record log =
  log_lock :: spinlock
  lstart :: int
  lsize :: int
  outstanding :: int
  committing :: int
  ldev :: int
  lh_n :: int
  lh_block :: "nat \<Rightarrow> 32 word"

text \<open>Copy committed blocks from log to their home location.\<close>

function install_trans_loop :: "bool \<Rightarrow> log \<Rightarrow> int \<Rightarrow> kstate \<Rightarrow> halt + kstate" where
  "install_trans_loop recovering lg tail s =
     (if tail < lh_n lg then
        (case bread (word_of_int (ldev lg)) (word_of_int (lstart lg + tail + 1)) s of
           Inl e \<Rightarrow> Inl e
         | Inr (lbuf, s) \<Rightarrow>
        (case bread (word_of_int (ldev lg)) (lh_block lg (nat tail)) s of
           Inl e \<Rightarrow> Inl e
         | Inr (dbuf, s) \<Rightarrow>
        (let s = s\<lparr>bufs := (bufs s)(dbuf := (bufs s dbuf)\<lparr>data := data (bufs s lbuf)\<rparr>)\<rparr>
         in case bwrite dbuf s of
           Inl e \<Rightarrow> Inl e
         | Inr s \<Rightarrow>
        (case (if \<not> recovering then bunpin dbuf s else Inr s) of
           Inl e \<Rightarrow> Inl e
         | Inr s \<Rightarrow>
        (case brelse lbuf s of
           Inl e \<Rightarrow> Inl e
         | Inr s \<Rightarrow>
        (case brelse dbuf s of
           Inl e \<Rightarrow> Inl e
         | Inr s \<Rightarrow> install_trans_loop recovering lg (tail + 1) s))))))
      else Inr s)"
  by pat_completeness auto
termination
  by (relation "measure (\<lambda>(r, lg, tail, s). nat (lh_n lg - tail))") auto

declare install_trans_loop.simps [simp del]

definition install_trans :: "bool \<Rightarrow> log \<Rightarrow> kstate \<Rightarrow> halt + kstate" where
  "install_trans recovering lg s = install_trans_loop recovering lg 0 s"

text \<open>
  The header block read as a \<open>struct logheader\<close>: word 0 is \<open>n\<close>, word \<open>1 + i\<close> is
  \<open>block[i]\<close>.
\<close>

definition read_head :: "log \<Rightarrow> kstate \<Rightarrow> halt + (log \<times> kstate)" where
  "read_head lg s =
     (case bread (word_of_int (ldev lg)) (word_of_int (lstart lg)) s of
        Inl e \<Rightarrow> Inl e
      | Inr (b, s) \<Rightarrow>
          let lh = data (bufs s b);
              lg = lg\<lparr>lh_n := sint (lh 0)\<rparr>;
              lg = fold (\<lambda>i lg. lg\<lparr>lh_block := (lh_block lg)(i := lh (1 + i))\<rparr>)
                     [0..<nat (lh_n lg)] lg
          in (case brelse b s of Inl e \<Rightarrow> Inl e | Inr s \<Rightarrow> Inr (lg, s)))"

text \<open>
  Write in-memory log header to disk. This is the true point at which the current
  transaction commits.
\<close>

definition write_head :: "log \<Rightarrow> kstate \<Rightarrow> halt + kstate" where
  "write_head lg s =
     (case bread (word_of_int (ldev lg)) (word_of_int (lstart lg)) s of
        Inl e \<Rightarrow> Inl e
      | Inr (b, s) \<Rightarrow>
          let hb = data (bufs s b);
              hb = hb(0 := word_of_int (lh_n lg));
              hb = fold (\<lambda>i hb. hb(1 + i := lh_block lg i)) [0..<nat (lh_n lg)] hb;
              s = s\<lparr>bufs := (bufs s)(b := (bufs s b)\<lparr>data := hb\<rparr>)\<rparr>
          in (case bwrite b s of
                Inl e \<Rightarrow> Inl e
              | Inr s \<Rightarrow> brelse b s))"

definition recover_from_log :: "log \<Rightarrow> kstate \<Rightarrow> halt + (log \<times> kstate)" where
  "recover_from_log lg s =
     (case read_head lg s of
        Inl e \<Rightarrow> Inl e
      | Inr (lg, s) \<Rightarrow>
          (case install_trans True lg s of
             Inl e \<Rightarrow> Inl e
           | Inr s \<Rightarrow>
               let lg = lg\<lparr>lh_n := 0\<rparr>
               in (case write_head lg s of Inl e \<Rightarrow> Inl e | Inr s \<Rightarrow> Inr (lg, s))))"

text \<open>Taking and dropping \<open>log.lock\<close>.\<close>

definition acquire_log :: "log \<Rightarrow> kstate \<Rightarrow> halt + (log \<times> kstate)" where
  "acquire_log lg s =
     (case acquire (log_lock lg) (mycpu (ctx s)) of
        Inl e \<Rightarrow> Inl e
      | Inr (l, c) \<Rightarrow> Inr (lg\<lparr>log_lock := l\<rparr>, s\<lparr>ctx := (ctx s)\<lparr>mycpu := c\<rparr>\<rparr>))"

definition release_log :: "log \<Rightarrow> kstate \<Rightarrow> halt + (log \<times> kstate)" where
  "release_log lg s =
     (case release (log_lock lg) (mycpu (ctx s)) of
        Inl e \<Rightarrow> Inl e
      | Inr (l, c) \<Rightarrow> Inr (lg\<lparr>log_lock := l\<rparr>, s\<lparr>ctx := (ctx s)\<lparr>mycpu := c\<rparr>\<rparr>))"

text \<open>
  \<open>begin_op\<close>. \<open>MAXOPBLOCKS\<close> and \<open>LOGSIZE\<close> come from param.h, which is not among
  the sources: they are parameters.

  Modelled from the spec: \<open>sleep(&log, &log.lock)\<close> of the scheduler, which
  "atomically releases the spinlock, parks the caller on chan, reacquires on wake".
  While the caller is parked, other processes work on the log; the list \<open>ws\<close>
  gives, for each time the caller is woken, the \<open>struct log\<close> it then finds, whose
  lock it holds again. When no one wakes it any more, it sleeps for ever.
\<close>

fun begin_op_loop :: "int \<Rightarrow> int \<Rightarrow> log list \<Rightarrow> log \<Rightarrow> kstate \<Rightarrow> halt + (log \<times> kstate)" where
  "begin_op_loop MAXOPBLOCKS LOGSIZE ws lg s =
     (if committing lg \<noteq> 0 then
        (case ws of
           [] \<Rightarrow> Inl Hang
         | w # ws \<Rightarrow> begin_op_loop MAXOPBLOCKS LOGSIZE ws (w\<lparr>log_lock := log_lock lg\<rparr>) s)
      else if lh_n lg + (outstanding lg + 1) * MAXOPBLOCKS > LOGSIZE then
        (case ws of
           [] \<Rightarrow> Inl Hang
         | w # ws \<Rightarrow> begin_op_loop MAXOPBLOCKS LOGSIZE ws (w\<lparr>log_lock := log_lock lg\<rparr>) s)
      else
        (let lg = lg\<lparr>outstanding := outstanding lg + 1\<rparr>
         in release_log lg s))"

declare begin_op_loop.simps [simp del]

definition begin_op :: "int \<Rightarrow> int \<Rightarrow> log list \<Rightarrow> log \<Rightarrow> kstate \<Rightarrow> halt + (log \<times> kstate)" where
  "begin_op MAXOPBLOCKS LOGSIZE ws lg s =
     (case acquire_log lg s of
        Inl e \<Rightarrow> Inl e
      | Inr (lg, s) \<Rightarrow> begin_op_loop MAXOPBLOCKS LOGSIZE ws lg s)"

text \<open>Copy modified blocks from cache to log.\<close>

function write_log_loop :: "log \<Rightarrow> int \<Rightarrow> kstate \<Rightarrow> halt + kstate" where
  "write_log_loop lg tail s =
     (if tail < lh_n lg then
        (case bread (word_of_int (ldev lg)) (word_of_int (lstart lg + tail + 1)) s of
           Inl e \<Rightarrow> Inl e
         | Inr (to, s) \<Rightarrow>
        (case bread (word_of_int (ldev lg)) (lh_block lg (nat tail)) s of
           Inl e \<Rightarrow> Inl e
         | Inr (from, s) \<Rightarrow>
        (let s = s\<lparr>bufs := (bufs s)(to := (bufs s to)\<lparr>data := data (bufs s from)\<rparr>)\<rparr>
         in case bwrite to s of
           Inl e \<Rightarrow> Inl e
         | Inr s \<Rightarrow>
        (case brelse from s of
           Inl e \<Rightarrow> Inl e
         | Inr s \<Rightarrow>
        (case brelse to s of
           Inl e \<Rightarrow> Inl e
         | Inr s \<Rightarrow> write_log_loop lg (tail + 1) s)))))
      else Inr s)"
  by pat_completeness auto
termination
  by (relation "measure (\<lambda>(lg, tail, s). nat (lh_n lg - tail))") auto

declare write_log_loop.simps [simp del]

definition write_log :: "log \<Rightarrow> kstate \<Rightarrow> halt + kstate" where
  "write_log lg s = write_log_loop lg 0 s"

definition commit :: "log \<Rightarrow> kstate \<Rightarrow> halt + (log \<times> kstate)" where
  "commit lg s =
     (if lh_n lg > 0 then
        (case write_log lg s of
           Inl e \<Rightarrow> Inl e
         | Inr s \<Rightarrow>
        (case write_head lg s of
           Inl e \<Rightarrow> Inl e
         | Inr s \<Rightarrow>
        (case install_trans False lg s of
           Inl e \<Rightarrow> Inl e
         | Inr s \<Rightarrow>
        (let lg = lg\<lparr>lh_n := 0\<rparr>
         in case write_head lg s of
           Inl e \<Rightarrow> Inl e
         | Inr s \<Rightarrow> Inr (lg, s)))))
      else Inr (lg, s))"

text \<open>
  The search of \<open>log_write\<close> for the block in \<open>block[0..n)\<close>: the index at which
  the loop stops.
\<close>

function log_write_find :: "log \<Rightarrow> 32 word \<Rightarrow> int \<Rightarrow> int" where
  "log_write_find lg bno i =
     (if i < lh_n lg then
        (if lh_block lg (nat i) = bno then i
         else log_write_find lg bno (i + 1))
      else i)"
  by pat_completeness auto
termination
  by (relation "measure (\<lambda>(lg, bno, i). nat (lh_n lg - i))") auto

declare log_write_find.simps [simp del]

definition log_write :: "int \<Rightarrow> nat \<Rightarrow> log \<Rightarrow> kstate \<Rightarrow> halt + (log \<times> kstate)" where
  "log_write LOGSIZE b lg s =
     (case acquire_log lg s of
        Inl e \<Rightarrow> Inl e
      | Inr (lg, s) \<Rightarrow>
          if lh_n lg \<ge> LOGSIZE \<or> lh_n lg \<ge> lsize lg - 1 then Inl (Panic ''too big a transaction'')
          else if outstanding lg < 1 then Inl (Panic ''log_write outside of trans'')
          else
            (let i = log_write_find lg (blockno (bufs s b)) 0;
                 lg = lg\<lparr>lh_block := (lh_block lg)(nat i := blockno (bufs s b))\<rparr>
             in if i = lh_n lg then
                  (case bpin b s of
                     Inl e \<Rightarrow> Inl e
                   | Inr s \<Rightarrow> release_log (lg\<lparr>lh_n := lh_n lg + 1\<rparr>) s)
                else release_log lg s))"


section \<open>Physical memory allocator (kalloc.c)\<close>

text \<open>
  Physical addresses are natural numbers below \<open>2 ^ 64\<close>, 0 the null pointer.
  Of the memory the allocator touches, the model keeps for the frame at each
  address its first machine word, where \<open>struct run\<close> has \<open>next\<close>, and the byte
  that \<open>memset\<close> last filled the frame with. \<open>end\<close> is \<open>kend\<close> here; it and
  \<open>PHYSTOP\<close> (memlayout.h) are parameters, and \<open>PGSIZE\<close> (riscv.h) is the 4096 of
  "Allocates whole 4096-byte pages".
\<close>

definition PGSIZE :: nat where
  "PGSIZE = 4096"

text \<open>\<open>PGROUNDUP\<close> of riscv.h on \<open>uint64\<close>: \<open>(sz + PGSIZE - 1) & ~(PGSIZE - 1)\<close>.\<close>

definition PGROUNDUP :: "nat \<Rightarrow> nat" where
  "PGROUNDUP sz = ((sz + PGSIZE - 1) mod 2 ^ 64) div PGSIZE * PGSIZE"

record kmem =
  kmem_lock :: spinlock
  freelist :: nat
  run_next :: "nat \<Rightarrow> nat"
  junk :: "nat \<Rightarrow> 8 word"

text \<open>\<open>memset(pa, c, PGSIZE)\<close>: every byte of the frame, those of its first word too.\<close>

definition memset_page :: "nat \<Rightarrow> 8 word \<Rightarrow> kmem \<Rightarrow> kmem" where
  "memset_page pa c m =
     m\<lparr>junk := (junk m)(pa := c),
       run_next := (run_next m)(pa := unat (word_rcat (replicate 8 c) :: 64 word))\<rparr>"

definition acquire_kmem :: "kmem \<times> cpu \<Rightarrow> halt + kmem \<times> cpu" where
  "acquire_kmem mc =
     (case acquire (kmem_lock (fst mc)) (snd mc) of
        Inl e \<Rightarrow> Inl e
      | Inr (l, c) \<Rightarrow> Inr ((fst mc)\<lparr>kmem_lock := l\<rparr>, c))"

definition release_kmem :: "kmem \<times> cpu \<Rightarrow> halt + kmem \<times> cpu" where
  "release_kmem mc =
     (case release (kmem_lock (fst mc)) (snd mc) of
        Inl e \<Rightarrow> Inl e
      | Inr (l, c) \<Rightarrow> Inr ((fst mc)\<lparr>kmem_lock := l\<rparr>, c))"

definition kfree :: "nat \<Rightarrow> nat \<Rightarrow> nat \<Rightarrow> kmem \<times> cpu \<Rightarrow> halt + kmem \<times> cpu" where
  "kfree kend PHYSTOP pa mc =
     (if pa mod PGSIZE \<noteq> 0 \<or> pa < kend \<or> pa \<ge> PHYSTOP then Inl (Panic ''kfree'')
      else
        (let mc = (memset_page pa 1 (fst mc), snd mc)
         in case acquire_kmem mc of
              Inl e \<Rightarrow> Inl e
            | Inr (m, c) \<Rightarrow>
                let m = m\<lparr>run_next := (run_next m)(pa := freelist m)\<rparr>;
                    m = m\<lparr>freelist := pa\<rparr>
                in release_kmem (m, c)))"

text \<open>
  The loop of \<open>freerange\<close>. A \<open>char*\<close> that steps past the end of the address
  space has no defined value.
\<close>

function freerange_loop :: "nat \<Rightarrow> nat \<Rightarrow> nat \<Rightarrow> nat \<Rightarrow> kmem \<times> cpu \<Rightarrow> halt + kmem \<times> cpu" where
  "freerange_loop kend PHYSTOP p pa_end mc =
     (if p + PGSIZE \<ge> 2 ^ 64 then Inl (Undefined ''freerange: p + PGSIZE'')
      else if p + PGSIZE \<le> pa_end then
        (case kfree kend PHYSTOP p mc of
           Inl e \<Rightarrow> Inl e
         | Inr mc \<Rightarrow> freerange_loop kend PHYSTOP (p + PGSIZE) pa_end mc)
      else Inr mc)"
  by pat_completeness auto
termination
  by (relation "measure (\<lambda>(kend, PHYSTOP, p, pa_end, mc). 2 ^ 64 - p)") (auto simp: PGSIZE_def)

declare freerange_loop.simps [simp del]

definition freerange :: "nat \<Rightarrow> nat \<Rightarrow> nat \<Rightarrow> nat \<Rightarrow> kmem \<times> cpu \<Rightarrow> halt + kmem \<times> cpu" where
  "freerange kend PHYSTOP pa_start pa_end mc =
     freerange_loop kend PHYSTOP (PGROUNDUP pa_start) pa_end mc"

definition kinit :: "nat \<Rightarrow> nat \<Rightarrow> kmem \<times> cpu \<Rightarrow> halt + kmem \<times> cpu" where
  "kinit kend PHYSTOP mc =
     freerange kend PHYSTOP kend PHYSTOP ((fst mc)\<lparr>kmem_lock := initlock\<rparr>, snd mc)"

definition kalloc :: "kmem \<times> cpu \<Rightarrow> halt + nat \<times> kmem \<times> cpu" where
  "kalloc mc =
     (case acquire_kmem mc of
        Inl e \<Rightarrow> Inl e
      | Inr (m, c) \<Rightarrow>
          let r = freelist m;
              m = (if r \<noteq> 0 then m\<lparr>freelist := run_next m r\<rparr> else m)
          in case release_kmem (m, c) of
               Inl e \<Rightarrow> Inl e
             | Inr (m, c) \<Rightarrow>
                 let m = (if r \<noteq> 0 then memset_page r 5 m else m)
                 in Inr (r, m, c))"

text \<open>\<open>k\<close> calls of \<open>kalloc\<close> one after the other, with the pointers they return.\<close>

fun kalloc_times :: "nat \<Rightarrow> kmem \<times> cpu \<Rightarrow> halt + nat list \<times> kmem \<times> cpu" where
  "kalloc_times 0 mc = Inr ([], mc)"
| "kalloc_times (Suc k) mc =
     (case kalloc mc of
        Inl e \<Rightarrow> Inl e
      | Inr (r, mc) \<Rightarrow>
          (case kalloc_times k mc of
             Inl e \<Rightarrow> Inl e
           | Inr (rs, mc) \<Rightarrow> Inr (r # rs, mc)))"

text \<open>The allocator before \<open>kinit\<close>: \<open>kmem\<close> is static, so all zero.\<close>

definition zero_kmem :: kmem where
  "zero_kmem = \<lparr>kmem_lock = \<lparr>locked = 0, owner = None\<rparr>, freelist = 0,
     run_next = (\<lambda>a. 0), junk = (\<lambda>a. 0)\<rparr>"

definition boot_cpu :: cpu where
  "boot_cpu = \<lparr>hartid = 0, noff = 0, intena = False, intr = False\<rparr>"


section \<open>Histories of the buffer cache\<close>

text \<open>
  To speak of the order in which buffers were released, the calls of bio.c are run
  in sequence next to a clock that ticks at every \<open>brelse\<close> that takes a reference
  count to 0, and a table that keeps for each buffer the time of its last such
  release (0: never). The clock and the table only observe; the cache never reads
  them.
\<close>

datatype bop = Bread "32 word" "32 word" | Bwrite nat | Brelse nat | Bpin nat | Bunpin nat

record hist =
  clock :: nat
  released :: "nat \<Rightarrow> nat"

fun bstep :: "bop \<Rightarrow> kstate \<times> hist \<Rightarrow> halt + kstate \<times> hist" where
  "bstep (Bread d bno) (s, h) =
     (case bread d bno s of Inl e \<Rightarrow> Inl e | Inr (b, s) \<Rightarrow> Inr (s, h))"
| "bstep (Bwrite b) (s, h) =
     (case bwrite b s of Inl e \<Rightarrow> Inl e | Inr s \<Rightarrow> Inr (s, h))"
| "bstep (Brelse b) (s, h) =
     (case brelse b s of
        Inl e \<Rightarrow> Inl e
      | Inr s \<Rightarrow>
          Inr (s, if refcnt (bufs s b) = 0
                  then h\<lparr>clock := clock h + 1, released := (released h)(b := clock h + 1)\<rparr>
                  else h))"
| "bstep (Bpin b) (s, h) =
     (case bpin b s of Inl e \<Rightarrow> Inl e | Inr s \<Rightarrow> Inr (s, h))"
| "bstep (Bunpin b) (s, h) =
     (case bunpin b s of Inl e \<Rightarrow> Inl e | Inr s \<Rightarrow> Inr (s, h))"

fun brun :: "bop list \<Rightarrow> kstate \<times> hist \<Rightarrow> halt + kstate \<times> hist" where
  "brun [] sh = Inr sh"
| "brun (x # xs) sh = (case bstep x sh of Inl e \<Rightarrow> Inl e | Inr sh \<Rightarrow> brun xs sh)"

definition hist0 :: hist where
  "hist0 = \<lparr>clock = 0, released = (\<lambda>b. 0)\<rparr>"


section \<open>Pipes (pipe.c)\<close>

definition PIPESIZE :: nat where
  "PIPESIZE = 512"

record pipe =
  plock :: spinlock
  pdata :: "nat \<Rightarrow> 8 word"
  nread :: "32 word"
  nwrite :: "32 word"
  readopen :: bool
  writeopen :: bool

text \<open>
  Modelled from the spec: \<open>copyin(pt, dst, uva, n)\<close> and \<open>copyout(pt, uva, src, n)\<close>
  of the MMU helpers (vm.c is not among the sources), for one byte. The user memory
  of the calling process is a partial map from user addresses to bytes; an access
  to an address that is not mapped fails (\<open>-1\<close>).
\<close>

type_synonym umem = "64 word \<Rightarrow> 8 word option"













section \<open>Auxiliary notions for the proofs\<close>

text \<open>
  The hart after a matched \<open>push_off\<close> and \<open>pop_off\<close>: \<open>noff\<close> is back, \<open>intena\<close>
  was overwritten if the pair was outermost, and interrupts are on only if the pair
  was outermost and they were on before.
\<close>

definition unnest :: "cpu \<Rightarrow> cpu" where
  "unnest c = c\<lparr>intena := (if noff c = 0 then intr c else intena c),
                 intr := (noff c = 0 \<and> intr c)\<rparr>"

definition unlocked :: "spinlock \<Rightarrow> spinlock" where
  "unlocked l = l\<lparr>locked := 0, owner := None\<rparr>"

text \<open>The first scan of \<open>bget\<close>: the buffer that caches block \<open>bno\<close> of device \<open>d\<close>.\<close>

definition cache_lookup :: "kstate \<Rightarrow> 32 word \<Rightarrow> 32 word \<Rightarrow> nat option" where
  "cache_lookup s d bno = find (\<lambda>b. dev (bufs s b) = d \<and> blockno (bufs s b) = bno) (lru s)"

text \<open>The block numbers that the in-memory log header names: \<open>block[0..n)\<close>.\<close>

definition logged :: "log \<Rightarrow> 32 word list" where
  "logged lg = map (lh_block lg) [0..<nat (lh_n lg)]"

section \<open>Concrete states for the examples\<close>

text \<open>
  A log of 30 blocks starting at block 2 of device 1 with one operation open and
  nothing logged, as \<open>initlog\<close> and one \<open>begin_op\<close> leave it.
\<close>

definition log_open :: log where
  "log_open = \<lparr>log_lock = \<lparr>locked = 0, owner = None\<rparr>, lstart = 2, lsize = 30, outstanding = 1,
     committing = 0, ldev = 1, lh_n = 0, lh_block = (\<lambda>i. 0)\<rparr>"

text \<open>
  A cache of three buffers after \<open>binit\<close> in which process 1 has read block 42 of
  device 1 (all zero on disk) and holds its buffer.
\<close>

definition cache_b42 :: kstate where
  "cache_b42 = snd (projr (bread 1 42 (binit 3 (zero_kstate 1 (\<lambda>a w. 0)))))"

text \<open>
  The log of an open operation with 28 blocks logged (blocks 100 to 127) and
  \<open>size = 30\<close>, and the log and cache after a \<open>log_write\<close> of the buffer of
  block 42 then.
\<close>

definition log_almost_full :: log where
  "log_almost_full = log_open\<lparr>lh_n := 28, lh_block := (\<lambda>i. 100 + of_nat i)\<rparr>"

definition log_b42_at_bound :: "log \<times> kstate" where
  "log_b42_at_bound = projr (log_write 30 0 log_almost_full cache_b42)"

text \<open>
  The free list as a list of frames: \<open>freelist\<close> points to the first, each frame's
  \<open>next\<close> to the following one, the last one's is null.
\<close>

fun is_freelist :: "(nat \<Rightarrow> nat) \<Rightarrow> nat \<Rightarrow> nat list \<Rightarrow> bool" where
  "is_freelist nx p [] = (p = 0)"
| "is_freelist nx p (x # xs) = (p = x \<and> x \<noteq> 0 \<and> is_freelist nx (nx x) xs)"

text \<open>The frames that \<open>freerange\<close> frees from \<open>p\<close> on, in the order it frees them.\<close>

function frames_from :: "nat \<Rightarrow> nat \<Rightarrow> nat list" where
  "frames_from p pa_end = (if 0 < PGSIZE \<and> p + PGSIZE \<le> pa_end then p # frames_from (p + PGSIZE) pa_end else [])"
  by pat_completeness auto
termination
  by (relation "measure (\<lambda>(p, pa_end). pa_end - p)") auto

declare frames_from.simps [simp del]

text \<open>
  The list of the cache is kept in the order of the last releases: no buffer
  twice, and from \<open>head.next\<close> to \<open>head.prev\<close> the times of release do not
  increase.
\<close>

definition lru_inv :: "kstate \<times> hist \<Rightarrow> bool" where
  "lru_inv sh = (distinct (lru (fst sh))
     \<and> sorted_wrt (\<lambda>i j. released (snd sh) j \<le> released (snd sh) i) (lru (fst sh))
     \<and> (\<forall>b. released (snd sh) b \<le> clock (snd sh)))"

text \<open>
  Example E3: a cache of three buffers after \<open>binit\<close>, in which process 1 has read
  and released blocks 10, 11 and 12 of device 1, in this order.
\<close>

definition e3_ops :: "bop list" where
  "e3_ops = [Bread 1 10, Brelse 0, Bread 1 11, Brelse 1, Bread 1 12, Brelse 2]"

definition e3_cache :: "kstate \<times> hist" where
  "e3_cache = projr (brun e3_ops (binit 3 (zero_kstate 1 (\<lambda>a w. 0)), hist0))"

text \<open>
  A fresh pipe as \<open>pipealloc\<close> leaves it, a process on hart 0 with interrupts on
  and no lock held, and a user memory in which every address holds the byte 104.
\<close>

definition pipe0 :: pipe where
  "pipe0 = \<lparr>plock = \<lparr>locked = 0, owner = None\<rparr>, pdata = (\<lambda>i. 0), nread = 0, nwrite = 0,
     readopen = True, writeopen = True\<rparr>"

definition kctx0 :: kctx where
  "kctx0 = \<lparr>mycpu = \<lparr>hartid = 0, noff = 0, intena = False, intr = True\<rparr>, mypid = 1,
     parked = (\<lambda>q. None)\<rparr>"


text \<open>
  The calling thread is inside the critical section of the pipe: it holds
  \<open>pi->lock\<close>, so interrupts are off and \<open>noff\<close> is at least 1.
\<close>

definition pipe_held :: "pipe \<Rightarrow> kctx \<Rightarrow> bool" where
  "pipe_held pi k = (holding (plock pi) (mycpu k) \<and> \<not> intr (mycpu k) \<and> 1 \<le> noff (mycpu k))"

definition pipe0_held :: pipe where
  "pipe0_held = pipe0\<lparr>plock := \<lparr>locked = 1, owner = Some 0\<rparr>\<rparr>"

definition kctx0_held :: kctx where
  "kctx0_held = kctx0\<lparr>mycpu := \<lparr>hartid = 0, noff = 1, intena = True, intr = False\<rparr>\<rparr>"

text \<open>
  Notions for the transfers of a pipe: the pipe after the bytes \<open>bs\<close> have been put
  in at \<open>nwrite\<close>, one after the other; the \<open>c\<close> oldest unread bytes of a pipe; the
  user memory after the bytes \<open>bs\<close> have been stored at \<open>a\<close>, \<open>a + 1\<close>, ...
\<close>

fun pipe_put :: "pipe \<Rightarrow> 8 word list \<Rightarrow> pipe" where
  "pipe_put pi [] = pi"
| "pipe_put pi (ch # bs) =
     pipe_put (pi\<lparr>pdata := (pdata pi)(unat (nwrite pi) mod PIPESIZE := ch),
                  nwrite := nwrite pi + 1\<rparr>) bs"

definition pipe_bytes :: "pipe \<Rightarrow> nat \<Rightarrow> 8 word list" where
  "pipe_bytes pi c = map (\<lambda>t. pdata pi (unat (nread pi + of_nat t) mod PIPESIZE)) [0..<c]"

fun store_bytes :: "umem \<Rightarrow> 64 word \<Rightarrow> 8 word list \<Rightarrow> umem" where
  "store_bytes um a [] = um"
| "store_bytes um a (ch # bs) = store_bytes (um(a := Some ch)) (a + 1) bs"


text \<open>
  Notions for the commit. The identity of a buffer; an identity that at most one
  buffer of the list has; a block whose content is \<open>dt\<close> on disk and in every valid
  buffer of the list that caches it; a block cached with content \<open>dt\<close> in a valid
  buffer that is in use.
\<close>

definition ident :: "kstate \<Rightarrow> nat \<Rightarrow> 32 word \<times> 32 word" where
  "ident s b = (dev (bufs s b), blockno (bufs s b))"

definition uniq :: "kstate \<Rightarrow> 32 word \<times> 32 word \<Rightarrow> bool" where
  "uniq s X = (\<forall>b \<in> set (lru s). \<forall>c \<in> set (lru s). ident s b = X \<and> ident s c = X \<longrightarrow> b = c)"

definition holds :: "kstate \<Rightarrow> 32 word \<times> 32 word \<Rightarrow> (nat \<Rightarrow> 32 word) \<Rightarrow> bool" where
  "holds s X dt = (disk s X = dt
     \<and> (\<forall>b \<in> set (lru s). ident s b = X \<and> valid (bufs s b) \<longrightarrow> data (bufs s b) = dt))"

definition pinned :: "kstate \<Rightarrow> 32 word \<times> 32 word \<Rightarrow> (nat \<Rightarrow> 32 word) \<Rightarrow> bool" where
  "pinned s X dt = (\<exists>h. cache_lookup s (fst X) (snd X) = Some h \<and> valid (bufs s h)
     \<and> refcnt (bufs s h) \<noteq> 0 \<and> data (bufs s h) = dt)"

text \<open>
  The cache and the log when \<open>end_op\<close> calls \<open>commit\<close> for a transaction that has
  modified blocks 100 and 200 of device 1: of four buffers, buffer 0 holds block
  100 and buffer 1 block 200, both valid, released and pinned by \<open>log_write\<close>; the
  log starts at block 2 and lists the two blocks.
\<close>

definition tx_cache :: kstate where
  "tx_cache =
     \<lparr>ctx = \<lparr>mycpu = \<lparr>hartid = 0, noff = 0, intena = False, intr = True\<rparr>,
              mypid = 1, parked = (\<lambda>q. None)\<rparr>,
      bcache_lock = \<lparr>locked = 0, owner = None\<rparr>,
      bufs = (\<lambda>b. zero_buf)
        (0 := zero_buf\<lparr>valid := True, dev := 1, blockno := 100, refcnt := 1, data := (\<lambda>w. 7)\<rparr>,
         1 := zero_buf\<lparr>valid := True, dev := 1, blockno := 200, refcnt := 1, data := (\<lambda>w. 9)\<rparr>),
      lru = [3, 2, 1, 0], disk = (\<lambda>a w. 0), writes = []\<rparr>"

definition tx_log :: log where
  "tx_log = \<lparr>log_lock = \<lparr>locked = 0, owner = None\<rparr>, lstart = 2, lsize = 30, outstanding = 0,
     committing = 1, ldev = 1, lh_n = 2, lh_block = (\<lambda>i. 0)(0 := 100, 1 := 200)\<rparr>"

section \<open>Properties of the ELF segment flags\<close>

text \<open>
  C4, as the code has it. The permission bits that \<open>exec\<close> passes to \<open>uvmalloc\<close> for a
  LOAD segment are \<open>flags2perm(ph.flags)\<close>: flag bit 1 yields \<open>PTE_X\<close>, flag bit 2
  yields \<open>PTE_W\<close>, and nothing else is looked at; in particular flag bit 4 (read)
  changes nothing.
\<close>

theorem flags2perm_exec_write_only:
  "flags2perm ptex ptew flags =
     (if flags AND 1 \<noteq> 0 then ptex else 0) OR (if flags AND 2 \<noteq> 0 then ptew else 0)
   \<and> flags2perm ptex ptew (flags OR 4) = flags2perm ptex ptew flags
   \<and> flags2perm ptex ptew (flags AND 3) = flags2perm ptex ptew flags"
proof -
  have a: "(flags AND 3) AND 1 = flags AND 1" "(flags AND 3) AND 2 = flags AND 2"
    by (simp_all add: and.assoc)
  show ?thesis
    by (simp add: flags2perm_def Let_def word_ao_dist a)
qed

text \<open>
  C4, as stated, fails: with the RISC-V page-table bits \<open>PTE_R = 2\<close>, \<open>PTE_W = 4\<close>,
  \<open>PTE_X = 8\<close>, a segment whose flags are 4 (read only) gets the permission bits 0,
  the same as a segment with no flag at all, and no read bit.
\<close>

theorem flags2perm_read_counterexample:
  "flags2perm 8 4 4 = 0 \<and> flags2perm 8 4 4 AND 2 = 0 \<and> flags2perm 8 4 4 = flags2perm 8 4 0"
  by (simp add: flags2perm_def)

section \<open>Properties of the spin locks\<close>

lemma spin_Some: "spin l = Some l' \<Longrightarrow> locked l = 0"
proof (rule spin.raw_induct [where P = "\<lambda>l l'. locked l = 0"], goal_cases)
  case (1 sp l l')
  show ?case
  proof (rule ccontr)
    assume "locked l \<noteq> 0"
    with 1(3) have "sp (l\<lparr>locked := 1\<rparr>) = Some l'" by simp
    from 1(2) [OF this] show False by simp
  qed
qed

lemma spin_locked: "locked l \<noteq> 0 \<Longrightarrow> spin l = None"
  using spin_Some by (cases "spin l") auto

lemma spin_free: "locked l = 0 \<Longrightarrow> spin l = Some (l\<lparr>locked := 1\<rparr>)"
  by (subst spin.simps) simp

lemma spin_eq: "spin l = (if locked l = 0 then Some (l\<lparr>locked := 1\<rparr>) else None)"
  by (simp add: spin_locked spin_free)

lemma push_off_inv: "intr_inv (push_off c)"
  by (simp add: push_off_def intr_inv_def Let_def)

lemma pop_off_inv: "pop_off c = Inr c' \<Longrightarrow> intr_inv c'"
  by (auto simp: pop_off_def intr_inv_def Let_def split: if_splits)

lemma pop_off_intr: "pop_off c = Inr c' \<Longrightarrow> intr c' = (noff c = 1 \<and> intena c)"
  by (auto simp: pop_off_def Let_def split: if_splits)

lemma spin_step_inv: "spin_step x (c, ls) = Inr (c', ls') \<Longrightarrow> intr_inv c'"
  by (cases x)
    (auto simp: push_off_inv acquire_def release_def Let_def dest: pop_off_inv
      split: sum.splits if_splits option.splits)

lemma spin_run_inv: "intr_inv (fst s) \<Longrightarrow> spin_run xs s = Inr s' \<Longrightarrow> intr_inv (fst s')"
proof (induction xs arbitrary: s)
  case Nil
  then show ?case by simp
next
  case (Cons x xs)
  then show ?case
    by (cases s) (auto split: sum.splits dest: spin_step_inv)
qed

lemma spin_nesting_scenario:
  assumes "noff c = 0" "intr c" "a \<noteq> b" "locked (ls a) = 0" "locked (ls b) = 0"
  shows "\<exists>s3 s4. spin_run [Acquire a, Acquire b, Release b] (c, ls) = Inr s3
           \<and> \<not> intr (fst s3) \<and> noff (fst s3) = 1
           \<and> spin_run [Release a] s3 = Inr s4 \<and> intr (fst s4) \<and> noff (fst s4) = 0"
  using assms
  by (simp add: acquire_def release_def push_off_def pop_off_def holding_def spin_eq Let_def)

text \<open>
  C8. Along every run of spin-lock operations of a hart, \<open>noff > 0\<close> implies that the
  hart's interrupts are off. \<open>pop_off\<close> leaves interrupts on exactly when it takes
  \<open>noff\<close> from 1 to 0 and \<open>intena\<close> is set, and \<open>intena\<close> is what the interrupt
  bit was at the outermost \<open>push_off\<close> (inner ones leave it alone). So on a hart with
  interrupts on and no lock held, after \<open>acquire(A); acquire(B); release(B)\<close>
  interrupts are off, and after \<open>release(A)\<close> they are on again.
\<close>

theorem spin_nesting_interrupts:
  "(intr_inv (fst s) \<and> spin_run xs s = Inr s' \<longrightarrow> intr_inv (fst s'))
   \<and> (pop_off c = Inr c' \<longrightarrow> intr c' = (noff c = 1 \<and> intena c))
   \<and> intena (push_off c) = (if noff c = 0 then intr c else intena c)
   \<and> (noff c0 = 0 \<and> intr c0 \<and> a \<noteq> b \<and> locked (ls a) = 0 \<and> locked (ls b) = 0 \<longrightarrow>
        (\<exists>s3 s4. spin_run [Acquire a, Acquire b, Release b] (c0, ls) = Inr s3
           \<and> \<not> intr (fst s3) \<and> noff (fst s3) = 1
           \<and> spin_run [Release a] s3 = Inr s4 \<and> intr (fst s4) \<and> noff (fst s4) = 0))"
proof (intro conjI impI)
  show "intr_inv (fst s')" if "intr_inv (fst s) \<and> spin_run xs s = Inr s'"
    using that spin_run_inv by blast
  show "intr c' = (noff c = 1 \<and> intena c)" if "pop_off c = Inr c'"
    using that by (rule pop_off_intr)
  show "intena (push_off c) = (if noff c = 0 then intr c else intena c)"
    by (simp add: push_off_def Let_def)
  show "\<exists>s3 s4. spin_run [Acquire a, Acquire b, Release b] (c0, ls) = Inr s3
           \<and> \<not> intr (fst s3) \<and> noff (fst s3) = 1
           \<and> spin_run [Release a] s3 = Inr s4 \<and> intr (fst s4) \<and> noff (fst s4) = 0"
    if "noff c0 = 0 \<and> intr c0 \<and> a \<noteq> b \<and> locked (ls a) = 0 \<and> locked (ls b) = 0"
    using that spin_nesting_scenario by blast
qed

theorem spin_nesting_interrupts_witness:
  "intr_inv \<lparr>hartid = 0, noff = 0, intena = False, intr = True\<rparr>
   \<and> (\<exists>s'. spin_run [Acquire 0, Push_off, Acquire 1, Release 1, Pop_off]
              (\<lparr>hartid = 0, noff = 0, intena = False, intr = True\<rparr>, \<lambda>a. initlock) = Inr s'
         \<and> intr_inv (fst s') \<and> noff (fst s') = 1)
   \<and> pop_off \<lparr>hartid = 0, noff = 1, intena = True, intr = False\<rparr>
       = Inr \<lparr>hartid = 0, noff = 0, intena = True, intr = True\<rparr>
   \<and> (\<exists>s3 s4. spin_run [Acquire 0, Acquire 1, Release 1]
              (\<lparr>hartid = 0, noff = 0, intena = False, intr = True\<rparr>, \<lambda>a. initlock) = Inr s3
         \<and> \<not> intr (fst s3) \<and> noff (fst s3) = 1
         \<and> spin_run [Release 0] s3 = Inr s4 \<and> intr (fst s4) \<and> noff (fst s4) = 0)"
proof -
  let ?c = "\<lparr>hartid = 0, noff = 0, intena = False, intr = True\<rparr>"
  let ?p = "\<lparr>hartid = 0, noff = 1, intena = True, intr = False\<rparr>"
  let ?ls = "\<lambda>a::nat. initlock"
  let ?xs = "[Acquire 0, Push_off, Acquire 1, Release 1, Pop_off]"
  have i: "intr_inv (fst (?c, ?ls))"
    by (simp add: intr_inv_def)
  have r: "\<not> isl (spin_run ?xs (?c, ?ls))"
    by (simp add: acquire_def release_def push_off_def pop_off_def holding_def spin_eq
        Let_def initlock_def)
  then have e: "spin_run ?xs (?c, ?ls) = Inr (projr (spin_run ?xs (?c, ?ls)))"
    by simp
  have n: "noff (fst (projr (spin_run ?xs (?c, ?ls)))) = 1"
    by (simp add: acquire_def release_def push_off_def pop_off_def holding_def spin_eq
        Let_def initlock_def)
  have p: "pop_off ?p = Inr \<lparr>hartid = 0, noff = 0, intena = True, intr = True\<rparr>"
    by (simp add: pop_off_def)
  have h: "noff ?c = 0 \<and> intr ?c \<and> (0::nat) \<noteq> 1 \<and> locked (?ls 0) = 0 \<and> locked (?ls 1) = 0"
    by (simp add: initlock_def)
  note t = spin_nesting_interrupts [of "(?c, ?ls)" ?xs "projr (spin_run ?xs (?c, ?ls))" ?p
      "\<lparr>hartid = 0, noff = 0, intena = True, intr = True\<rparr>" ?c 0 1 ?ls]
  from t i e have 1: "intr_inv (fst (projr (spin_run ?xs (?c, ?ls))))"
    by blast
  from t h have 2: "\<exists>s3 s4. spin_run [Acquire 0, Acquire 1, Release 1] (?c, ?ls) = Inr s3
         \<and> \<not> intr (fst s3) \<and> noff (fst s3) = 1
         \<and> spin_run [Release 0] s3 = Inr s4 \<and> intr (fst s4) \<and> noff (fst s4) = 0"
    by blast
  from i e 1 n p 2 show ?thesis
    by (metis fst_conv)
qed


section \<open>Properties of the sleep locks\<close>

lemma hartid_push_off [simp]: "hartid (push_off c) = hartid c"
  by (simp add: push_off_def Let_def)

lemma acquire_free:
  "locked l = 0 \<Longrightarrow> acquire l c = Inr (l\<lparr>locked := 1, owner := Some (hartid c)\<rparr>, push_off c)"
  by (simp add: acquire_def holding_def spin_eq Let_def)

lemma acquire_Inr:
  "acquire l c = Inr (l', c') \<Longrightarrow>
     locked l = 0 \<and> l' = l\<lparr>locked := 1, owner := Some (hartid c)\<rparr> \<and> c' = push_off c"
  by (auto simp: acquire_def holding_def spin_eq Let_def split: if_splits)

lemma pop_push_off: "0 \<le> noff c \<Longrightarrow> pop_off (push_off c) = Inr (unnest c)"
  by (cases c) (auto simp: pop_off_def push_off_def unnest_def Let_def)

lemma release_acquired:
  "0 \<le> noff c \<Longrightarrow> locked l = 1 \<Longrightarrow> owner l = Some (hartid c) \<Longrightarrow>
    release l (push_off c) = Inr (unlocked l, unnest c)"
  by (simp add: release_def holding_def Let_def pop_push_off unlocked_def)

lemma unnest_simps [simp]: "noff (unnest c) = noff c" "hartid (unnest c) = hartid c"
  by (simp_all add: unnest_def)

lemma unlocked_simps [simp]: "locked (unlocked l) = 0" "owner (unlocked l) = None"
  by (simp_all add: unlocked_def)

lemma releasesleep_free:
  assumes "locked (lk l) = 0" "0 \<le> noff (mycpu k)"
  shows "releasesleep a l k =
     Inr (l\<lparr>lk := unlocked (lk l), slocked := 0, spid := 0\<rparr>,
          k\<lparr>parked := (\<lambda>p. if parked k p = Some a then None else parked k p),
            mycpu := unnest (mycpu k)\<rparr>)"
  using assms
  by (simp add: releasesleep_def acquire_free release_acquired wakeup_def Let_def unlocked_def
      cong: if_cong)

lemma holdingsleep_free:
  assumes "locked (lk l) = 0" "0 \<le> noff (mycpu k)"
  shows "holdingsleep l k =
     Inr (slocked l \<noteq> 0 \<and> spid l = mypid k, l\<lparr>lk := unlocked (lk l)\<rparr>,
          k\<lparr>mycpu := unnest (mycpu k)\<rparr>)"
  using assms
  by (simp add: holdingsleep_def acquire_free release_acquired Let_def unlocked_def)

lemma acquiresleep_free:
  assumes "locked (lk l) = 0" "0 \<le> noff (mycpu k)"
  shows "acquiresleep l k =
     (if slocked l \<noteq> 0 then Inl Hang
      else Inr (l\<lparr>lk := unlocked (lk l), slocked := 1, spid := mypid k\<rparr>,
                k\<lparr>mycpu := unnest (mycpu k)\<rparr>))"
  using assms
  by (simp add: acquiresleep_def acquire_free release_acquired Let_def unlocked_def)

lemma bwrite_brelse_not_holder:
  assumes "locked (lk (lock (bufs s b))) = 0" "0 \<le> noff (mycpu (ctx s))"
    "\<not> (slocked (lock (bufs s b)) \<noteq> 0 \<and> spid (lock (bufs s b)) = mypid (ctx s))"
  shows "bwrite b s = Inl (Panic ''bwrite'')" "brelse b s = Inl (Panic ''brelse'')"
  using assms
  by (auto simp add: bwrite_def brelse_def holdingsleep_buf_def holdingsleep_free)

text \<open>
  C10. \<open>releasesleep(l)\<close> does not look at who holds \<open>l\<close>: whatever \<open>locked\<close> and
  \<open>pid\<close> of \<open>l\<close> are and whoever calls, it returns with \<open>locked\<close> and \<open>pid\<close>
  cleared and every process parked on \<open>l\<close> woken (the inner spin lock being free
  and \<open>noff\<close> not negative, as for any kernel thread not in that lock). Spin-lock
  \<open>release\<close>, \<open>bwrite\<close> and \<open>brelse\<close> panic instead when the caller is not the
  holder.
\<close>

theorem releasesleep_no_holder_check:
  "(locked (lk l) = 0 \<and> 0 \<le> noff (mycpu k) \<longrightarrow>
      (\<exists>l' k'. releasesleep a l k = Inr (l', k')
         \<and> slocked l' = 0 \<and> spid l' = 0 \<and> locked (lk l') = 0
         \<and> (\<forall>p. parked k' p = (if parked k p = Some a then None else parked k p))
         \<and> mypid k' = mypid k \<and> noff (mycpu k') = noff (mycpu k)))
   \<and> (\<not> holding sl c \<longrightarrow> release sl c = Inl (Panic ''release''))
   \<and> (locked (lk (lock (bufs s b))) = 0 \<and> 0 \<le> noff (mycpu (ctx s))
        \<and> \<not> (slocked (lock (bufs s b)) \<noteq> 0 \<and> spid (lock (bufs s b)) = mypid (ctx s)) \<longrightarrow>
      bwrite b s = Inl (Panic ''bwrite'') \<and> brelse b s = Inl (Panic ''brelse''))"
proof (intro conjI impI)
  assume "locked (lk l) = 0 \<and> 0 \<le> noff (mycpu k)"
  then show "\<exists>l' k'. releasesleep a l k = Inr (l', k')
         \<and> slocked l' = 0 \<and> spid l' = 0 \<and> locked (lk l') = 0
         \<and> (\<forall>p. parked k' p = (if parked k p = Some a then None else parked k p))
         \<and> mypid k' = mypid k \<and> noff (mycpu k') = noff (mycpu k)"
    by (simp add: releasesleep_free)
next
  assume "\<not> holding sl c"
  then show "release sl c = Inl (Panic ''release'')"
    by (simp add: release_def)
next
  assume h: "locked (lk (lock (bufs s b))) = 0 \<and> 0 \<le> noff (mycpu (ctx s))
        \<and> \<not> (slocked (lock (bufs s b)) \<noteq> 0 \<and> spid (lock (bufs s b)) = mypid (ctx s))"
  then show "bwrite b s = Inl (Panic ''bwrite'')"
    using bwrite_brelse_not_holder(1) by blast
  from h show "brelse b s = Inl (Panic ''brelse'')"
    using bwrite_brelse_not_holder(2) by blast
qed

text \<open>
  Process 3 releases a sleep lock that process 7 holds and on which process 9 is
  parked: the call returns, the lock is free and process 9 is woken. The same
  process 3 calling \<open>bwrite\<close> or \<open>brelse\<close> on a buffer it does not hold panics, and
  so does \<open>release\<close> of a spin lock that hart 1 holds, called on hart 0.
\<close>

theorem releasesleep_no_holder_check_witness:
  "(\<exists>l' k'. releasesleep (Chan 5)
        \<lparr>lk = initlock, slocked = 1, spid = 7\<rparr>
        \<lparr>mycpu = \<lparr>hartid = 0, noff = 0, intena = False, intr = True\<rparr>, mypid = 3,
          parked = (\<lambda>p. if p = 9 then Some (Chan 5) else None)\<rparr> = Inr (l', k')
      \<and> slocked l' = 0 \<and> spid l' = 0 \<and> parked k' 9 = None)
   \<and> release \<lparr>locked = 1, owner = Some 1\<rparr> \<lparr>hartid = 0, noff = 1, intena = True, intr = False\<rparr>
       = Inl (Panic ''release'')
   \<and> bwrite 0 (zero_kstate 3 (\<lambda>a w. 0)) = Inl (Panic ''bwrite'')
   \<and> brelse 0 (zero_kstate 3 (\<lambda>a w. 0)) = Inl (Panic ''brelse'')"
proof -
  let ?l = "\<lparr>lk = initlock, slocked = 1, spid = 7\<rparr>"
  let ?k = "\<lparr>mycpu = \<lparr>hartid = 0, noff = 0, intena = False, intr = True\<rparr>, mypid = 3,
          parked = (\<lambda>p. if p = 9 then Some (Chan 5) else None)\<rparr>"
  let ?sl = "\<lparr>locked = 1, owner = Some 1\<rparr>"
  let ?c = "\<lparr>hartid = 0, noff = 1, intena = True, intr = False\<rparr>"
  let ?s = "zero_kstate 3 (\<lambda>a w. 0)"
  note t = releasesleep_no_holder_check [of ?l ?k "Chan 5" ?sl ?c ?s 0]
  have 1: "locked (lk ?l) = 0 \<and> 0 \<le> noff (mycpu ?k)"
    by (simp add: initlock_def)
  have 2: "\<not> holding ?sl ?c"
    by (simp add: holding_def)
  have 3: "locked (lk (lock (bufs ?s 0))) = 0 \<and> 0 \<le> noff (mycpu (ctx ?s))
        \<and> \<not> (slocked (lock (bufs ?s 0)) \<noteq> 0 \<and> spid (lock (bufs ?s 0)) = mypid (ctx ?s))"
    by (simp add: zero_kstate_def zero_buf_def)
  from t 1 obtain l' k' where r: "releasesleep (Chan 5) ?l ?k = Inr (l', k')"
    "slocked l' = 0" "spid l' = 0"
    "\<forall>p. parked k' p = (if parked ?k p = Some (Chan 5) then None else parked ?k p)"
    by blast
  from r(4) have "parked k' 9 = None"
    by simp
  with r t 2 3 show ?thesis
    by blast
qed


section \<open>Lock brackets\<close>

lemma acquire_eq:
  "acquire l c =
     (if locked l = 0 then Inr (l\<lparr>locked := 1, owner := Some (hartid c)\<rparr>, push_off c)
      else if owner l = Some (hartid c) then Inl (Panic ''acquire'') else Inl Hang)"
  by (auto simp: acquire_def holding_def spin_eq Let_def)

lemma pop_push_off_eq:
  "pop_off (push_off c) = (if 0 \<le> noff c then Inr (unnest c) else Inl (Panic ''pop_off''))"
  by (cases c) (auto simp: pop_off_def push_off_def unnest_def Let_def)

lemma release_eq:
  "release l c =
     (if holding l c then (case pop_off c of Inl e \<Rightarrow> Inl e | Inr c \<Rightarrow> Inr (unlocked l, c))
      else Inl (Panic ''release''))"
  by (auto simp: release_def Let_def unlocked_def split: sum.splits)

lemma acquire_bcache_eq:
  "acquire_bcache s =
     (if locked (bcache_lock s) = 0
      then Inr (s\<lparr>bcache_lock := (bcache_lock s)\<lparr>locked := 1, owner := Some (hartid (mycpu (ctx s)))\<rparr>,
            ctx := (ctx s)\<lparr>mycpu := push_off (mycpu (ctx s))\<rparr>\<rparr>)
      else if owner (bcache_lock s) = Some (hartid (mycpu (ctx s))) then Inl (Panic ''acquire'')
      else Inl Hang)"
  by (simp add: acquire_bcache_def acquire_eq)

lemma release_bcache_eq:
  "release_bcache s =
     (if holding (bcache_lock s) (mycpu (ctx s))
      then (case pop_off (mycpu (ctx s)) of Inl e \<Rightarrow> Inl e
            | Inr c \<Rightarrow> Inr (s\<lparr>bcache_lock := unlocked (bcache_lock s), ctx := (ctx s)\<lparr>mycpu := c\<rparr>\<rparr>))
      else Inl (Panic ''release''))"
  by (simp add: release_bcache_def release_eq split: sum.splits)

lemma bpin_iff:
  "bpin b s = Inr s' \<longleftrightarrow> locked (bcache_lock s) = 0 \<and> 0 \<le> noff (mycpu (ctx s)) \<and>
     s' = s\<lparr>bcache_lock := unlocked (bcache_lock s),
            ctx := (ctx s)\<lparr>mycpu := unnest (mycpu (ctx s))\<rparr>,
            bufs := (bufs s)(b := (bufs s b)\<lparr>refcnt := refcnt (bufs s b) + 1\<rparr>)\<rparr>"
  by (auto simp: bpin_def acquire_bcache_eq release_bcache_eq holding_def pop_push_off_eq unlocked_def
      split: sum.splits if_splits)

lemma bunpin_iff:
  "bunpin b s = Inr s' \<longleftrightarrow> locked (bcache_lock s) = 0 \<and> 0 \<le> noff (mycpu (ctx s)) \<and>
     s' = s\<lparr>bcache_lock := unlocked (bcache_lock s),
            ctx := (ctx s)\<lparr>mycpu := unnest (mycpu (ctx s))\<rparr>,
            bufs := (bufs s)(b := (bufs s b)\<lparr>refcnt := refcnt (bufs s b) - 1\<rparr>)\<rparr>"
  by (auto simp: bunpin_def acquire_bcache_eq release_bcache_eq holding_def pop_push_off_eq unlocked_def
      split: sum.splits if_splits)

section \<open>Properties of \<open>log_write\<close>\<close>

lemma log_write_find_range:
  "0 \<le> i \<Longrightarrow> i \<le> lh_n lg \<Longrightarrow> i \<le> log_write_find lg bno i \<and> log_write_find lg bno i \<le> lh_n lg"
proof (induction lg bno i rule: log_write_find.induct)
  case (1 lg bno i)
  show ?case
  proof (cases "i < lh_n lg \<and> lh_block lg (nat i) \<noteq> bno")
    case True
    with 1 show ?thesis by (subst (1 2) log_write_find.simps) force
  next
    case False
    with 1(2,3) show ?thesis by (subst (1 2) log_write_find.simps) auto
  qed
qed

lemma log_write_find_absent:
  "0 \<le> i \<Longrightarrow> \<forall>j. i \<le> j \<and> j < lh_n lg \<longrightarrow> lh_block lg (nat j) \<noteq> bno \<Longrightarrow> i \<le> lh_n lg \<Longrightarrow>
     log_write_find lg bno i = lh_n lg"
proof (induction lg bno i rule: log_write_find.induct)
  case (1 lg bno i)
  show ?case
  proof (cases "i < lh_n lg")
    case True
    with 1 show ?thesis by (subst log_write_find.simps) force
  next
    case False
    with 1 show ?thesis by (subst log_write_find.simps) auto
  qed
qed

lemma log_write_find_present:
  "0 \<le> i \<Longrightarrow> \<exists>j. i \<le> j \<and> j < lh_n lg \<and> lh_block lg (nat j) = bno \<Longrightarrow>
     log_write_find lg bno i < lh_n lg \<and> lh_block lg (nat (log_write_find lg bno i)) = bno"
proof (induction lg bno i rule: log_write_find.induct)
  case (1 lg bno i)
  from 1(3) have lt: "i < lh_n lg" by auto
  show ?case
  proof (cases "lh_block lg (nat i) = bno")
    case True
    with lt show ?thesis by (subst (1 2) log_write_find.simps) auto
  next
    case False
    from 1(3) obtain j where j: "i \<le> j" "j < lh_n lg" "lh_block lg (nat j) = bno" by auto
    with False have "i \<noteq> j" by auto
    with j have "\<exists>j. i + 1 \<le> j \<and> j < lh_n lg \<and> lh_block lg (nat j) = bno" by (intro exI[of _ j]) auto
    with 1(1)[OF lt False] 1(2) have "log_write_find lg bno (i + 1) < lh_n lg \<and>
       lh_block lg (nat (log_write_find lg bno (i + 1))) = bno" by auto
    with lt False show ?thesis by (subst (1 2) log_write_find.simps) auto
  qed
qed

lemma in_logged_iff:
  "0 \<le> lh_n lg \<Longrightarrow> bno \<in> set (logged lg) \<longleftrightarrow> (\<exists>j. 0 \<le> j \<and> j < lh_n lg \<and> lh_block lg (nat j) = bno)"
proof
  assume "bno \<in> set (logged lg)"
  then obtain i where "i < nat (lh_n lg)" "lh_block lg i = bno" by (auto simp: logged_def)
  then show "\<exists>j. 0 \<le> j \<and> j < lh_n lg \<and> lh_block lg (nat j) = bno"
    by (intro exI[of _ "int i"]) auto
next
  assume "\<exists>j. 0 \<le> j \<and> j < lh_n lg \<and> lh_block lg (nat j) = bno"
  then obtain j where "0 \<le> j" "j < lh_n lg" "lh_block lg (nat j) = bno" by auto
  then show "bno \<in> set (logged lg)"
    unfolding logged_def by (auto intro!: image_eqI[of _ _ "nat j"])
qed

lemma acquire_log_eq:
  "acquire_log lg s =
     (if locked (log_lock lg) = 0
      then Inr (lg\<lparr>log_lock := (log_lock lg)\<lparr>locked := 1, owner := Some (hartid (mycpu (ctx s)))\<rparr>\<rparr>,
                s\<lparr>ctx := (ctx s)\<lparr>mycpu := push_off (mycpu (ctx s))\<rparr>\<rparr>)
      else if owner (log_lock lg) = Some (hartid (mycpu (ctx s))) then Inl (Panic ''acquire'')
      else Inl Hang)"
  by (simp add: acquire_log_def acquire_eq)

lemma release_log_eq:
  "release_log lg s =
     (if holding (log_lock lg) (mycpu (ctx s))
      then (case pop_off (mycpu (ctx s)) of Inl e \<Rightarrow> Inl e
            | Inr c \<Rightarrow> Inr (lg\<lparr>log_lock := unlocked (log_lock lg)\<rparr>, s\<lparr>ctx := (ctx s)\<lparr>mycpu := c\<rparr>\<rparr>))
      else Inl (Panic ''release''))"
  by (simp add: release_log_def release_eq split: sum.splits)

lemma log_write_find_cong:
  "lh_n lg' = lh_n lg \<Longrightarrow> lh_block lg' = lh_block lg \<Longrightarrow>
     log_write_find lg' bno i = log_write_find lg bno i"
proof (induction lg bno i rule: log_write_find.induct)
  case (1 lg bno i)
  show ?case
  proof (cases "i < lh_n lg \<and> lh_block lg (nat i) \<noteq> bno")
    case True
    with 1 show ?thesis 
      by (subst log_write_find.simps, subst (2) log_write_find.simps) auto
  next
    case False
    with 1(2,3) show ?thesis
      by (subst log_write_find.simps, subst (2) log_write_find.simps) auto
  qed
qed

lemma log_write_find_lock [simp]:
  "log_write_find (lg\<lparr>log_lock := l\<rparr>) bno i = log_write_find lg bno i"
  by (rule log_write_find_cong) simp_all

lemma log_write_Inr:
  assumes "log_write LOGSIZE b lg s = Inr (lg', s')"
  shows "lh_n lg < LOGSIZE" "lh_n lg < lsize lg - 1" "1 \<le> outstanding lg"
    "outstanding lg' = outstanding lg" "committing lg' = committing lg"
    "lstart lg' = lstart lg" "lsize lg' = lsize lg" "ldev lg' = ldev lg"
    "lru s' = lru s" "disk s' = disk s" "writes s' = writes s"
    "\<And>j. j \<noteq> b \<Longrightarrow> bufs s' j = bufs s j"
    "blockno (bufs s' b) = blockno (bufs s b)"
    "lh_n lg' = (if log_write_find lg (blockno (bufs s b)) 0 = lh_n lg then lh_n lg + 1 else lh_n lg)"
    "lh_block lg' = (lh_block lg)(nat (log_write_find lg (blockno (bufs s b)) 0) := blockno (bufs s b))"
    "refcnt (bufs s' b) = (if log_write_find lg (blockno (bufs s b)) 0 = lh_n lg
        then refcnt (bufs s b) + 1 else refcnt (bufs s b))"
  using assms
  by (auto simp: log_write_def acquire_log_eq release_log_eq Let_def bpin_iff
      split: if_splits sum.splits)

lemma log_write_returns:
  assumes "locked (log_lock lg) = 0" "locked (bcache_lock s) = 0" "0 \<le> noff (mycpu (ctx s))"
    "lh_n lg < LOGSIZE" "lh_n lg < lsize lg - 1" "1 \<le> outstanding lg"
  shows "\<exists>lg' s'. log_write LOGSIZE b lg s = Inr (lg', s')"
  using assms
  apply (simp add: log_write_def acquire_log_eq release_log_eq Let_def acquire_bcache_eq release_bcache_eq bpin_def
      holding_def pop_push_off_eq unnest_def)
  apply (simp add: pop_off_def push_off_def Let_def)
  done

lemma logged_append:
  "0 \<le> lh_n lg \<Longrightarrow> logged (lg\<lparr>lh_n := lh_n lg + 1, lh_block := (lh_block lg)(nat (lh_n lg) := b)\<rparr>) = logged lg @ [b]"
  by (simp add: logged_def nat_add_distrib)

lemma logged_cong: "lh_n lg' = lh_n lg \<Longrightarrow> lh_block lg' = lh_block lg \<Longrightarrow> logged lg' = logged lg"
  by (simp add: logged_def)

lemma log_write_effect:
  assumes w: "log_write LOGSIZE b lg s = Inr (lg', s')" and n: "0 \<le> lh_n lg"
  shows "blockno (bufs s b) \<in> set (logged lg) \<Longrightarrow>
           lh_n lg' = lh_n lg \<and> lh_block lg' = lh_block lg \<and> refcnt (bufs s' b) = refcnt (bufs s b)"
    and "blockno (bufs s b) \<notin> set (logged lg) \<Longrightarrow>
           lh_n lg' = lh_n lg + 1 \<and> lh_block lg' = (lh_block lg)(nat (lh_n lg) := blockno (bufs s b))
           \<and> logged lg' = logged lg @ [blockno (bufs s b)]
           \<and> refcnt (bufs s' b) = refcnt (bufs s b) + 1"
proof -
  let ?bno = "blockno (bufs s b)"
  let ?i = "log_write_find lg ?bno 0"
  note r = log_write_Inr [OF w]
  {
    assume "?bno \<in> set (logged lg)"
    with n have "\<exists>j. 0 \<le> j \<and> j < lh_n lg \<and> lh_block lg (nat j) = ?bno"
      by (simp add: in_logged_iff)
    then have "?i < lh_n lg \<and> lh_block lg (nat ?i) = ?bno"
      by (intro log_write_find_present) auto
    with r(14,15,16) show "lh_n lg' = lh_n lg \<and> lh_block lg' = lh_block lg
        \<and> refcnt (bufs s' b) = refcnt (bufs s b)"
      by auto
  }
  {
    assume "?bno \<notin> set (logged lg)"
    with n have "\<forall>j. 0 \<le> j \<and> j < lh_n lg \<longrightarrow> lh_block lg (nat j) \<noteq> ?bno"
      by (auto simp add: in_logged_iff)
    with n have i: "?i = lh_n lg"
      by (intro log_write_find_absent) auto
    with r(14,15,16) have a: "lh_n lg' = lh_n lg + 1"
      "lh_block lg' = (lh_block lg)(nat (lh_n lg) := ?bno)"
      "refcnt (bufs s' b) = refcnt (bufs s b) + 1"
      by auto
    with n have "logged lg' = logged lg @ [?bno]"
      by (simp add: logged_def nat_add_distrib)
    with a show "lh_n lg' = lh_n lg + 1 \<and> lh_block lg' = (lh_block lg)(nat (lh_n lg) := ?bno)
           \<and> logged lg' = logged lg @ [?bno] \<and> refcnt (bufs s' b) = refcnt (bufs s b) + 1"
      by simp
  }
qed

lemma log_write_twice:
  assumes w1: "log_write LOGSIZE b lg s = Inr (lg1, s1)"
    and w2: "log_write LOGSIZE b lg1 s1 = Inr (lg2, s2)"
    and n: "0 \<le> lh_n lg" and a: "blockno (bufs s b) \<notin> set (logged lg)"
  shows "lh_n lg2 = lh_n lg + 1 \<and> logged lg2 = logged lg @ [blockno (bufs s b)]
    \<and> count_list (logged lg2) (blockno (bufs s b)) = 1"
proof -
  let ?bno = "blockno (bufs s b)"
  from log_write_effect(2) [OF w1 n a] have 1: "lh_n lg1 = lh_n lg + 1"
    "logged lg1 = logged lg @ [?bno]" by simp_all
  have b: "blockno (bufs s1 b) = ?bno" by (rule log_write_Inr(13) [OF w1])
  from 1 n have n1: "0 \<le> lh_n lg1" by simp
  from 1 b have "blockno (bufs s1 b) \<in> set (logged lg1)" by simp
  from log_write_effect(1) [OF w2 n1 this] have 2: "lh_n lg2 = lh_n lg1" "lh_block lg2 = lh_block lg1"
    by simp_all
  then have "logged lg2 = logged lg1" by (rule logged_cong)
  with 1 2 a show ?thesis by (simp add: count_list_0_iff)
qed

lemma log_write_fatal:
  assumes "locked (log_lock lg) = 0" "LOGSIZE \<le> lh_n lg \<or> lsize lg - 1 \<le> lh_n lg"
  shows "log_write LOGSIZE b lg s = Inl (Panic ''too big a transaction'')"
  using assms by (auto simp: log_write_def acquire_log_eq)

lemma log_write_quiet:
  assumes "log_write LOGSIZE b lg s = Inr (lg', s')" "locked (bcache_lock s) = 0"
  shows "locked (log_lock lg') = 0" "locked (bcache_lock s') = 0"
    "noff (mycpu (ctx s')) = noff (mycpu (ctx s))"
  using assms
  by (auto simp: log_write_def acquire_log_eq release_log_eq Let_def bpin_iff unlocked_def
      unnest_def pop_off_def push_off_def holding_def
      split: if_splits sum.splits)

lemma log_write_once:
  assumes p: "locked (log_lock lg) = 0" "locked (bcache_lock s) = 0" "0 \<le> noff (mycpu (ctx s))"
    "1 \<le> outstanding lg" "0 \<le> lh_n lg" "lh_n lg < LOGSIZE" "lh_n lg < lsize lg - 1"
  shows "\<exists>lg' s'. log_write LOGSIZE b lg s = Inr (lg', s')
      \<and> (if blockno (bufs s b) \<in> set (logged lg)
         then lh_n lg' = lh_n lg \<and> lh_block lg' = lh_block lg
         else lh_n lg' = lh_n lg + 1
            \<and> lh_block lg' = (lh_block lg)(nat (lh_n lg) := blockno (bufs s b))
            \<and> logged lg' = logged lg @ [blockno (bufs s b)])"
proof -
  from log_write_returns [OF p(1,2,3,6,7,4)] obtain lg' s' where
    w: "log_write LOGSIZE b lg s = Inr (lg', s')" by blast
  from log_write_effect [OF w p(5)] have
    "if blockno (bufs s b) \<in> set (logged lg)
         then lh_n lg' = lh_n lg \<and> lh_block lg' = lh_block lg
         else lh_n lg' = lh_n lg + 1
            \<and> lh_block lg' = (lh_block lg)(nat (lh_n lg) := blockno (bufs s b))
            \<and> logged lg' = logged lg @ [blockno (bufs s b)]"
    by simp
  with w show ?thesis by blast
qed

lemma log_write_twice_returns:
  assumes p: "locked (log_lock lg) = 0" "locked (bcache_lock s) = 0" "0 \<le> noff (mycpu (ctx s))"
    "1 \<le> outstanding lg" "0 \<le> lh_n lg"
    and a: "blockno (bufs s b) \<notin> set (logged lg)"
    and r: "lh_n lg + 1 < LOGSIZE" "lh_n lg + 1 < lsize lg - 1"
  shows "\<exists>lg1 s1 lg2 s2. log_write LOGSIZE b lg s = Inr (lg1, s1)
      \<and> log_write LOGSIZE b lg1 s1 = Inr (lg2, s2)
      \<and> lh_n lg1 = lh_n lg + 1 \<and> lh_n lg2 = lh_n lg + 1
      \<and> logged lg2 = logged lg @ [blockno (bufs s b)]
      \<and> count_list (logged lg2) (blockno (bufs s b)) = 1"
proof -
  from r have "lh_n lg < LOGSIZE" "lh_n lg < lsize lg - 1" by simp_all
  from log_write_returns [OF p(1,2,3) this p(4)] obtain lg1 s1 where
    1: "log_write LOGSIZE b lg s = Inr (lg1, s1)" by blast
  note i = log_write_Inr [OF 1] and q = log_write_quiet [OF 1 p(2)]
  from log_write_effect(2) [OF 1 p(5) a] have n1: "lh_n lg1 = lh_n lg + 1" by simp
  have "\<exists>lg2 s2. log_write LOGSIZE b lg1 s1 = Inr (lg2, s2)"
    by (rule log_write_returns) (use q p i(4,7) n1 r in simp_all)
  then obtain lg2 s2 where 2: "log_write LOGSIZE b lg1 s1 = Inr (lg2, s2)" by blast
  from log_write_twice [OF 1 2 p(5) a] 1 2 n1 show ?thesis by blast
qed

declare spin_eq [code]

text \<open>
  C6, with the bound as a precondition. With the locks free, an operation open and
  \<open>0 \<le> n\<close> below both \<open>LOGSIZE\<close> and \<open>size - 1\<close>, \<open>log_write\<close> returns: when the
  buffer's block number is already in \<open>block[0..n)\<close>, \<open>n\<close> and \<open>block[]\<close> are as
  before; when it is not there yet, it is stored at \<open>block[n]\<close> and \<open>n\<close> grows by
  exactly 1. When also \<open>n + 1\<close> is below both bounds, two \<open>log_write\<close>s of the same
  block, not logged before, both return and leave \<open>n\<close> one larger and the block
  number exactly once in \<open>block[0..n)\<close>. When \<open>n\<close> has reached \<open>LOGSIZE\<close> or
  \<open>size - 1\<close>, \<open>log_write\<close> is fatal whatever the block, also for one that is
  already logged: the test of the bound comes before the search. Every
  \<open>log_write\<close> that returns was below the bounds, inside an operation.
\<close>

theorem log_write_absorbing_below_bound:
  "(locked (log_lock lg) = 0 \<and> locked (bcache_lock s) = 0 \<and> 0 \<le> noff (mycpu (ctx s))
      \<and> 1 \<le> outstanding lg \<and> 0 \<le> lh_n lg \<and> lh_n lg < LOGSIZE \<and> lh_n lg < lsize lg - 1 \<longrightarrow>
      (\<exists>lg' s'. log_write LOGSIZE b lg s = Inr (lg', s')
         \<and> (if blockno (bufs s b) \<in> set (logged lg)
            then lh_n lg' = lh_n lg \<and> lh_block lg' = lh_block lg
            else lh_n lg' = lh_n lg + 1
               \<and> lh_block lg' = (lh_block lg)(nat (lh_n lg) := blockno (bufs s b))
               \<and> logged lg' = logged lg @ [blockno (bufs s b)])))
   \<and> (locked (log_lock lg) = 0 \<and> locked (bcache_lock s) = 0 \<and> 0 \<le> noff (mycpu (ctx s))
      \<and> 1 \<le> outstanding lg \<and> 0 \<le> lh_n lg \<and> blockno (bufs s b) \<notin> set (logged lg)
      \<and> lh_n lg + 1 < LOGSIZE \<and> lh_n lg + 1 < lsize lg - 1 \<longrightarrow>
      (\<exists>lg1 s1 lg2 s2. log_write LOGSIZE b lg s = Inr (lg1, s1)
         \<and> log_write LOGSIZE b lg1 s1 = Inr (lg2, s2)
         \<and> lh_n lg1 = lh_n lg + 1 \<and> lh_n lg2 = lh_n lg + 1
         \<and> logged lg2 = logged lg @ [blockno (bufs s b)]
         \<and> count_list (logged lg2) (blockno (bufs s b)) = 1))
   \<and> (locked (log_lock lg) = 0 \<and> (LOGSIZE \<le> lh_n lg \<or> lsize lg - 1 \<le> lh_n lg) \<longrightarrow>
        log_write LOGSIZE b lg s = Inl (Panic ''too big a transaction''))
   \<and> (log_write LOGSIZE b lg s = Inr (lg', s') \<longrightarrow>
        lh_n lg < LOGSIZE \<and> lh_n lg < lsize lg - 1 \<and> 1 \<le> outstanding lg)"
proof -
  have 1: "locked (log_lock lg) = 0 \<and> locked (bcache_lock s) = 0 \<and> 0 \<le> noff (mycpu (ctx s))
      \<and> 1 \<le> outstanding lg \<and> 0 \<le> lh_n lg \<and> lh_n lg < LOGSIZE \<and> lh_n lg < lsize lg - 1 \<longrightarrow>
      (\<exists>lg' s'. log_write LOGSIZE b lg s = Inr (lg', s')
         \<and> (if blockno (bufs s b) \<in> set (logged lg)
            then lh_n lg' = lh_n lg \<and> lh_block lg' = lh_block lg
            else lh_n lg' = lh_n lg + 1
               \<and> lh_block lg' = (lh_block lg)(nat (lh_n lg) := blockno (bufs s b))
               \<and> logged lg' = logged lg @ [blockno (bufs s b)]))"
    using log_write_once [of lg s LOGSIZE b] by blast
  have 2: "locked (log_lock lg) = 0 \<and> locked (bcache_lock s) = 0 \<and> 0 \<le> noff (mycpu (ctx s))
      \<and> 1 \<le> outstanding lg \<and> 0 \<le> lh_n lg \<and> blockno (bufs s b) \<notin> set (logged lg)
      \<and> lh_n lg + 1 < LOGSIZE \<and> lh_n lg + 1 < lsize lg - 1 \<longrightarrow>
      (\<exists>lg1 s1 lg2 s2. log_write LOGSIZE b lg s = Inr (lg1, s1)
         \<and> log_write LOGSIZE b lg1 s1 = Inr (lg2, s2)
         \<and> lh_n lg1 = lh_n lg + 1 \<and> lh_n lg2 = lh_n lg + 1
         \<and> logged lg2 = logged lg @ [blockno (bufs s b)]
         \<and> count_list (logged lg2) (blockno (bufs s b)) = 1)"
    using log_write_twice_returns [of lg s b LOGSIZE] by blast
  have 3: "locked (log_lock lg) = 0 \<and> (LOGSIZE \<le> lh_n lg \<or> lsize lg - 1 \<le> lh_n lg) \<longrightarrow>
        log_write LOGSIZE b lg s = Inl (Panic ''too big a transaction'')"
    using log_write_fatal [of lg LOGSIZE b s] by blast
  have 4: "log_write LOGSIZE b lg s = Inr (lg', s') \<longrightarrow>
        lh_n lg < LOGSIZE \<and> lh_n lg < lsize lg - 1 \<and> 1 \<le> outstanding lg"
    using log_write_Inr(1,2,3) [of LOGSIZE b lg s lg' s'] by blast
  from 1 2 3 4 show ?thesis
    by (intro conjI)
qed

text \<open>
  Example E4: inside one operation, two \<open>log_write\<close>s of the buffer of block 42
  leave \<open>n = 1\<close> and \<open>block[0..n) = [42]\<close>. With 29 blocks logged and
  \<open>size = 30\<close>, a \<open>log_write\<close> of block 42, which is among them, is fatal.
\<close>

theorem log_write_absorbing_below_bound_witness:
  "(\<exists>lg1 s1 lg2 s2. log_write 30 0 log_open cache_b42 = Inr (lg1, s1)
      \<and> log_write 30 0 lg1 s1 = Inr (lg2, s2)
      \<and> lh_n lg1 = 1 \<and> lh_n lg2 = 1 \<and> logged lg2 = [42] \<and> count_list (logged lg2) 42 = 1)
   \<and> log_write 30 0 (fst log_b42_at_bound) (snd log_b42_at_bound)
       = Inl (Panic ''too big a transaction'')"
proof -
  have b: "blockno (bufs cache_b42 0) = 42"
    by code_simp
  have l: "logged log_open = []" "lh_n log_open = 0"
    by (simp_all add: logged_def log_open_def)
  have "locked (log_lock log_open) = 0 \<and> locked (bcache_lock cache_b42) = 0
      \<and> 0 \<le> noff (mycpu (ctx cache_b42)) \<and> 1 \<le> outstanding log_open
      \<and> 0 \<le> lh_n log_open \<and> lh_n log_open + 1 < 30 \<and> lh_n log_open + 1 < lsize log_open - 1"
    by code_simp
  with b l have p: "locked (log_lock log_open) = 0 \<and> locked (bcache_lock cache_b42) = 0
      \<and> 0 \<le> noff (mycpu (ctx cache_b42)) \<and> 1 \<le> outstanding log_open
      \<and> 0 \<le> lh_n log_open \<and> blockno (bufs cache_b42 0) \<notin> set (logged log_open)
      \<and> lh_n log_open + 1 < 30 \<and> lh_n log_open + 1 < lsize log_open - 1"
    by simp
  from log_write_absorbing_below_bound [where lg = log_open and s = cache_b42
      and LOGSIZE = 30 and b = 0,
      THEN conjunct2, THEN conjunct1, THEN mp, OF p]
  have 1: "\<exists>lg1 s1 lg2 s2. log_write 30 0 log_open cache_b42 = Inr (lg1, s1)
      \<and> log_write 30 0 lg1 s1 = Inr (lg2, s2)
      \<and> lh_n lg1 = 1 \<and> lh_n lg2 = 1 \<and> logged lg2 = [42] \<and> count_list (logged lg2) 42 = 1"
    unfolding b l by simp
  have q: "locked (log_lock (fst log_b42_at_bound)) = 0
      \<and> (30 \<le> lh_n (fst log_b42_at_bound)
          \<or> lsize (fst log_b42_at_bound) - 1 \<le> lh_n (fst log_b42_at_bound))"
    by code_simp
  from log_write_absorbing_below_bound [where lg = "fst log_b42_at_bound"
      and s = "snd log_b42_at_bound" and LOGSIZE = 30 and b = 0,
      THEN conjunct2, THEN conjunct2, THEN conjunct1, THEN mp, OF q]
  have 2: "log_write 30 0 (fst log_b42_at_bound) (snd log_b42_at_bound)
       = Inl (Panic ''too big a transaction'')" .
  from 1 2 show ?thesis
    by (intro conjI)
qed

text \<open>
  C6, as stated, fails at the bound. With \<open>size = 30\<close> and 28 blocks logged, none of
  them block 42, a \<open>log_write\<close> of the buffer of block 42 returns with \<open>n = 29\<close> and
  42 in \<open>block[0..n)\<close>; the second \<open>log_write\<close> of the same buffer, in the same
  operation, does not leave \<open>n\<close> and \<open>block[]\<close> unchanged: it panics.
\<close>

theorem log_write_at_bound_counterexample:
  "\<not> isl (log_write 30 0 log_almost_full cache_b42)
   \<and> lh_n log_almost_full = 28 \<and> lsize log_almost_full = 30
   \<and> blockno (bufs cache_b42 0) = 42 \<and> 42 \<notin> set (logged log_almost_full)
   \<and> lh_n (fst log_b42_at_bound) = 29
   \<and> blockno (bufs (snd log_b42_at_bound) 0) = 42
   \<and> 42 \<in> set (logged (fst log_b42_at_bound))
   \<and> outstanding (fst log_b42_at_bound) = 1
   \<and> isl (log_write 30 0 (fst log_b42_at_bound) (snd log_b42_at_bound))
   \<and> projl (log_write 30 0 (fst log_b42_at_bound) (snd log_b42_at_bound))
        = Panic ''too big a transaction''"
  by code_simp

section \<open>Properties of \<open>begin_op\<close>\<close>

lemma begin_op_loop_eq:
  "begin_op_loop M L ws lg s =
     (case dropWhile (\<lambda>l. committing l \<noteq> 0 \<or> lh_n l + (outstanding l + 1) * M > L) (lg # ws) of
        [] \<Rightarrow> Inl Hang
      | x # xs \<Rightarrow> release_log (x\<lparr>log_lock := log_lock lg, outstanding := outstanding x + 1\<rparr>) s)"
proof (induction ws arbitrary: lg)
  case Nil
  show ?case
    by (subst begin_op_loop.simps) (simp add: Let_def)
next
  case (Cons w ws)
  show ?case
    by (subst begin_op_loop.simps) (simp add: Let_def Cons.IH cong: list.case_cong)
qed

lemma begin_op_eq:
  assumes "locked (log_lock lg) = 0" "0 \<le> noff (mycpu (ctx s))"
  shows "begin_op M L ws lg s =
     (case dropWhile (\<lambda>l. committing l \<noteq> 0 \<or> lh_n l + (outstanding l + 1) * M > L) (lg # ws) of
        [] \<Rightarrow> Inl Hang
      | x # xs \<Rightarrow> Inr (x\<lparr>log_lock := unlocked (log_lock lg), outstanding := outstanding x + 1\<rparr>,
                       s\<lparr>ctx := (ctx s)\<lparr>mycpu := unnest (mycpu (ctx s))\<rparr>\<rparr>))"
proof -
  let ?P = "\<lambda>l. committing l \<noteq> 0 \<or> lh_n l + (outstanding l + 1) * M > L"
  let ?lg = "lg\<lparr>log_lock := (log_lock lg)\<lparr>locked := 1, owner := Some (hartid (mycpu (ctx s)))\<rparr>\<rparr>"
  let ?s = "s\<lparr>ctx := (ctx s)\<lparr>mycpu := push_off (mycpu (ctx s))\<rparr>\<rparr>"
  have d: "dropWhile ?P (?lg # ws) =
      (if ?P lg then dropWhile ?P ws else ?lg # ws)"
    by simp
  have b: "begin_op M L ws lg s = begin_op_loop M L ws ?lg ?s"
    using assms by (simp add: begin_op_def acquire_log_eq)
  show ?thesis
  proof (cases "dropWhile ?P (lg # ws)")
    case Nil
    then have "dropWhile ?P (?lg # ws) = []"
      by (simp split: if_splits)
    with Nil show ?thesis
      unfolding b begin_op_loop_eq by simp
  next
    case (Cons x xs)
    show ?thesis
    proof (cases "?P lg")
      case True
      with Cons have "dropWhile ?P (?lg # ws) = x # xs"
        by simp
      with Cons assms show ?thesis
        unfolding b begin_op_loop_eq
        by (simp add: release_log_eq holding_def pop_push_off_eq unlocked_def)
    next
      case False
      with Cons have x: "x = lg" "dropWhile ?P (?lg # ws) = ?lg # ws"
        by simp_all
      with Cons assms show ?thesis
        unfolding b begin_op_loop_eq
        by (simp add: release_log_eq holding_def pop_push_off_eq unlocked_def)
    qed
  qed
qed

text \<open>
  C5. Called with \<open>log.lock\<close> free, \<open>begin_op\<close> goes through the states of the log
  it finds, first the one at the call and then one at each wake-up, and sleeps on
  as long as the state has \<open>committing\<close> set or
  \<open>n + (outstanding + 1) * MAXOPBLOCKS > LOGSIZE\<close>. At the first state where
  neither holds it returns that state with \<open>outstanding\<close> one larger and nothing
  else changed (the lock is free again); if there is no such state it never
  returns. In particular it returns at once, with the log of the call, when neither
  condition holds at the call.
\<close>

theorem begin_op_blocks_exactly:
  "(locked (log_lock lg) = 0 \<and> 0 \<le> noff (mycpu (ctx s)) \<longrightarrow>
      begin_op M L ws lg s =
        (case dropWhile (\<lambda>l. committing l \<noteq> 0 \<or> lh_n l + (outstanding l + 1) * M > L) (lg # ws) of
           [] \<Rightarrow> Inl Hang
         | x # xs \<Rightarrow> Inr (x\<lparr>log_lock := unlocked (log_lock lg), outstanding := outstanding x + 1\<rparr>,
                          s\<lparr>ctx := (ctx s)\<lparr>mycpu := unnest (mycpu (ctx s))\<rparr>\<rparr>)))
   \<and> (locked (log_lock lg) = 0 \<and> 0 \<le> noff (mycpu (ctx s))
        \<and> committing lg = 0 \<and> lh_n lg + (outstanding lg + 1) * M \<le> L \<longrightarrow>
      begin_op M L ws lg s =
        Inr (lg\<lparr>log_lock := unlocked (log_lock lg), outstanding := outstanding lg + 1\<rparr>,
             s\<lparr>ctx := (ctx s)\<lparr>mycpu := unnest (mycpu (ctx s))\<rparr>\<rparr>))
   \<and> (locked (log_lock lg) = 0 \<and> 0 \<le> noff (mycpu (ctx s))
        \<and> (\<forall>l \<in> set (lg # ws). committing l \<noteq> 0 \<or> lh_n l + (outstanding l + 1) * M > L) \<longrightarrow>
      begin_op M L ws lg s = Inl Hang)"
proof -
  let ?P = "\<lambda>l. committing l \<noteq> 0 \<or> lh_n l + (outstanding l + 1) * M > L"
  have 1: "locked (log_lock lg) = 0 \<and> 0 \<le> noff (mycpu (ctx s)) \<longrightarrow>
      begin_op M L ws lg s =
        (case dropWhile ?P (lg # ws) of
           [] \<Rightarrow> Inl Hang
         | x # xs \<Rightarrow> Inr (x\<lparr>log_lock := unlocked (log_lock lg), outstanding := outstanding x + 1\<rparr>,
                          s\<lparr>ctx := (ctx s)\<lparr>mycpu := unnest (mycpu (ctx s))\<rparr>\<rparr>))"
    using begin_op_eq by blast
  have 2: "locked (log_lock lg) = 0 \<and> 0 \<le> noff (mycpu (ctx s))
        \<and> committing lg = 0 \<and> lh_n lg + (outstanding lg + 1) * M \<le> L \<longrightarrow>
      begin_op M L ws lg s =
        Inr (lg\<lparr>log_lock := unlocked (log_lock lg), outstanding := outstanding lg + 1\<rparr>,
             s\<lparr>ctx := (ctx s)\<lparr>mycpu := unnest (mycpu (ctx s))\<rparr>\<rparr>)"
    by (simp add: begin_op_eq)
  have 3: "locked (log_lock lg) = 0 \<and> 0 \<le> noff (mycpu (ctx s))
        \<and> (\<forall>l \<in> set (lg # ws). ?P l) \<longrightarrow> begin_op M L ws lg s = Inl Hang"
  proof
    assume a: "locked (log_lock lg) = 0 \<and> 0 \<le> noff (mycpu (ctx s)) \<and> (\<forall>l \<in> set (lg # ws). ?P l)"
    then have "dropWhile ?P (lg # ws) = []"
      by (intro dropWhile_eq_Nil_conv [THEN iffD2]) blast
    with a show "begin_op M L ws lg s = Inl Hang"
      by (simp only: begin_op_eq list.case)
  qed
  from 1 2 3 show ?thesis
    by (intro conjI)
qed

text \<open>
  A caller that finds the log committing, is woken when three operations would not
  fit (5 + 3 * 10 > 30), and is woken again when two do (5 + 2 * 10 \<le> 30): it
  returns then, as the second of two open operations.
\<close>

theorem begin_op_blocks_exactly_witness:
  "begin_op 10 30
      [log_open\<lparr>outstanding := 2, lh_n := 5\<rparr>, log_open\<lparr>outstanding := 1, lh_n := 5\<rparr>]
      (log_open\<lparr>committing := 1\<rparr>) cache_b42
    = Inr (log_open\<lparr>outstanding := 2, lh_n := 5\<rparr>,
           cache_b42\<lparr>ctx := (ctx cache_b42)\<lparr>mycpu := unnest (mycpu (ctx cache_b42))\<rparr>\<rparr>)
   \<and> begin_op 10 30 [] log_open cache_b42
    = Inr (log_open\<lparr>outstanding := 2\<rparr>,
           cache_b42\<lparr>ctx := (ctx cache_b42)\<lparr>mycpu := unnest (mycpu (ctx cache_b42))\<rparr>\<rparr>)
   \<and> begin_op 10 30 [log_open\<lparr>outstanding := 3\<rparr>] (log_open\<lparr>committing := 1\<rparr>) cache_b42
    = Inl Hang"
proof -
  have n: "0 \<le> noff (mycpu (ctx cache_b42))"
    by code_simp
  note t = begin_op_blocks_exactly [of _ cache_b42 10 30]
  have 1: "begin_op 10 30
      [log_open\<lparr>outstanding := 2, lh_n := 5\<rparr>, log_open\<lparr>outstanding := 1, lh_n := 5\<rparr>]
      (log_open\<lparr>committing := 1\<rparr>) cache_b42
    = Inr (log_open\<lparr>outstanding := 2, lh_n := 5\<rparr>,
           cache_b42\<lparr>ctx := (ctx cache_b42)\<lparr>mycpu := unnest (mycpu (ctx cache_b42))\<rparr>\<rparr>)"
    using n t [THEN conjunct1, of "log_open\<lparr>committing := 1\<rparr>"
        "[log_open\<lparr>outstanding := 2, lh_n := 5\<rparr>, log_open\<lparr>outstanding := 1, lh_n := 5\<rparr>]"]
    by (simp add: log_open_def unlocked_def)
  have 2: "begin_op 10 30 [] log_open cache_b42
    = Inr (log_open\<lparr>outstanding := 2\<rparr>,
           cache_b42\<lparr>ctx := (ctx cache_b42)\<lparr>mycpu := unnest (mycpu (ctx cache_b42))\<rparr>\<rparr>)"
    using n t [THEN conjunct2, THEN conjunct1, of log_open "[]"]
    by (simp add: log_open_def unlocked_def)
  have 3: "begin_op 10 30 [log_open\<lparr>outstanding := 3\<rparr>] (log_open\<lparr>committing := 1\<rparr>) cache_b42
    = Inl Hang"
    using n t [THEN conjunct2, THEN conjunct2, of "log_open\<lparr>committing := 1\<rparr>"
        "[log_open\<lparr>outstanding := 3\<rparr>]"]
    by (simp add: log_open_def)
  from 1 2 3 show ?thesis
    by (intro conjI)
qed


section \<open>Properties of the frame allocator\<close>

lemma kfree_eq:
  assumes "locked (kmem_lock m) = 0" "0 \<le> noff c"
  shows "kfree kend PHYSTOP pa (m, c) =
     (if pa mod PGSIZE \<noteq> 0 \<or> pa < kend \<or> pa \<ge> PHYSTOP then Inl (Panic ''kfree'')
      else Inr (m\<lparr>junk := (junk m)(pa := 1), run_next := (run_next m)(pa := freelist m),
                  freelist := pa, kmem_lock := unlocked (kmem_lock m)\<rparr>, unnest c))"
  using assms
  by (simp add: kfree_def acquire_kmem_def release_kmem_def acquire_eq release_eq holding_def
      pop_push_off_eq memset_page_def Let_def unlocked_def)

lemma kfree_Inr:
  assumes "kfree kend PHYSTOP pa (m, c) = Inr (m', c')"
  shows "locked (kmem_lock m) = 0" "0 \<le> noff c" "pa mod PGSIZE = 0" "kend \<le> pa" "pa < PHYSTOP"
    "m' = m\<lparr>junk := (junk m)(pa := 1), run_next := (run_next m)(pa := freelist m),
                  freelist := pa, kmem_lock := unlocked (kmem_lock m)\<rparr>" "c' = unnest c"
  using assms
  by (auto simp add: kfree_def acquire_kmem_def release_kmem_def acquire_eq release_eq holding_def
      pop_push_off_eq memset_page_def Let_def unlocked_def split: if_splits)

lemma kalloc_eq:
  assumes "locked (kmem_lock m) = 0" "0 \<le> noff c"
  shows "kalloc (m, c) =
     Inr (freelist m,
          (if freelist m \<noteq> 0
           then m\<lparr>freelist := run_next m (freelist m), kmem_lock := unlocked (kmem_lock m),
                  junk := (junk m)(freelist m := 5),
                  run_next := (run_next m)(freelist m := unat (word_rcat (replicate 8 (5::8 word)) :: 64 word))\<rparr>
           else m\<lparr>kmem_lock := unlocked (kmem_lock m)\<rparr>), unnest c)"
  using assms
  by (simp add: kalloc_def acquire_kmem_def release_kmem_def acquire_eq release_eq holding_def
      pop_push_off_eq memset_page_def Let_def unlocked_def)

lemma is_freelist_upd:
  "x \<notin> set xs \<Longrightarrow> is_freelist (nx(x := v)) p xs = is_freelist nx p xs"
  by (induction xs arbitrary: p) auto

lemma frames_from_props:
  "x \<in> set (frames_from p e) \<Longrightarrow> p \<le> x \<and> x + PGSIZE \<le> e \<and> (p mod PGSIZE = 0 \<longrightarrow> x mod PGSIZE = 0)"
proof (induction p e rule: frames_from.induct)
  case (1 p e)
  from 1(2) have c: "0 < PGSIZE \<and> p + PGSIZE \<le> e"
    by (subst (asm) frames_from.simps) (auto split: if_splits)
  with 1(2) have "x = p \<or> x \<in> set (frames_from (p + PGSIZE) e)"
    by (subst (asm) frames_from.simps) (auto split: if_splits)
  then show ?case
  proof
    assume "x = p" with c show ?thesis by simp
  next
    assume "x \<in> set (frames_from (p + PGSIZE) e)"
    from 1(1) [OF c this] show ?thesis by auto
  qed
qed

lemma frames_from_distinct: "distinct (frames_from p e)"
proof (induction p e rule: frames_from.induct)
  case (1 p e)
  show ?case
  proof (cases "0 < PGSIZE \<and> p + PGSIZE \<le> e")
    case True
    have "p \<notin> set (frames_from (p + PGSIZE) e)"
      using frames_from_props [of p "p + PGSIZE" e] True by auto
    with 1 [OF True] True show ?thesis
      by (subst frames_from.simps) simp
  next
    case False
    then show ?thesis by (subst frames_from.simps) auto
  qed
qed

lemma freerange_loop_ok:
  assumes "locked (kmem_lock m) = 0" "0 \<le> noff c"
    "is_freelist (run_next m) (freelist m) xs" "\<forall>x \<in> set xs. x < p"
    "p mod PGSIZE = 0" "kend \<le> p" "0 < p" "pa_end \<le> PHYSTOP" "pa_end + PGSIZE < 2 ^ 64" "p + PGSIZE < 2 ^ 64"
  shows "\<exists>m' c'. freerange_loop kend PHYSTOP p pa_end (m, c) = Inr (m', c')
      \<and> locked (kmem_lock m') = 0 \<and> noff c' = noff c
      \<and> is_freelist (run_next m') (freelist m') (rev (frames_from p pa_end) @ xs)"
  using assms
proof (induction kend PHYSTOP p pa_end "(m, c)" arbitrary: m c xs rule: freerange_loop.induct)
  case (1 kend PHYSTOP p pa_end)
  show ?case
  proof (cases "p + PGSIZE \<le> pa_end")
    case False
    then have "frames_from p pa_end = []" by (subst frames_from.simps) simp
    with False 1(2-) show ?thesis
      by (subst freerange_loop.simps) simp
  next
    case True
    let ?m = "m\<lparr>junk := (junk m)(p := 1), run_next := (run_next m)(p := freelist m),
                  freelist := p, kmem_lock := unlocked (kmem_lock m)\<rparr>"
    from True 1(2-) have k: "kfree kend PHYSTOP p (m, c) = Inr (?m, unnest c)"
      by (simp add: kfree_eq PGSIZE_def)
    have n: "\<not> 2 ^ 64 \<le> p + PGSIZE" using 1(11) by simp
    from 1(5) have "p \<notin> set xs" by auto
    with 1(4,8) have fl: "is_freelist (run_next ?m) (freelist ?m) (p # xs)"
      by (simp add: is_freelist_upd)
    have "\<exists>m' c'. freerange_loop kend PHYSTOP (p + PGSIZE) pa_end (?m, unnest c) = Inr (m', c')
      \<and> locked (kmem_lock m') = 0 \<and> noff c' = noff (unnest c)
      \<and> is_freelist (run_next m') (freelist m') (rev (frames_from (p + PGSIZE) pa_end) @ (p # xs))"
    proof (rule 1(1) [OF n True k _ _ fl])
      show "locked (kmem_lock ?m) = 0" by simp
      show "0 \<le> noff (unnest c)" using 1(3) by simp
      show "\<forall>x\<in>set (p # xs). x < p + PGSIZE" using 1(5) by (auto simp: PGSIZE_def)
      show "(p + PGSIZE) mod PGSIZE = 0" using 1(6) by simp
      show "kend \<le> p + PGSIZE" using 1(7) by simp
      show "0 < p + PGSIZE" using 1(8) by simp
      show "pa_end \<le> PHYSTOP" by (rule 1(9))
      show "pa_end + PGSIZE < 2 ^ 64" by (rule 1(10))
      show "p + PGSIZE + PGSIZE < 2 ^ 64" using True 1(10) by simp
    qed
    moreover have "frames_from p pa_end = p # frames_from (p + PGSIZE) pa_end"
      using True by (subst frames_from.simps) (simp add: PGSIZE_def)
    ultimately show ?thesis
      using True n k by (subst freerange_loop.simps) auto
  qed
qed

lemma kalloc_times_eq:
  assumes "locked (kmem_lock m) = 0" "0 \<le> noff c"
    "is_freelist (run_next m) (freelist m) xs" "distinct xs"
  shows "\<exists>m' c'. kalloc_times k (m, c) = Inr (take k xs @ replicate (k - length xs) 0, m', c')
    \<and> locked (kmem_lock m') = 0 \<and> noff c' = noff c"
  using assms
proof (induction k arbitrary: m c xs)
  case 0
  then show ?case by simp
next
  case (Suc k)
  show ?case
  proof (cases xs)
    case Nil
    with Suc.prems have f: "freelist m = 0" by simp
    let ?m = "m\<lparr>kmem_lock := unlocked (kmem_lock m)\<rparr>"
    from Suc.prems f have k: "kalloc (m, c) = Inr (0, ?m, unnest c)"
      by (simp add: kalloc_eq)
    have "\<exists>m' c'. kalloc_times k (?m, unnest c) = Inr (take k [] @ replicate (k - length ([]::nat list)) 0, m', c')
      \<and> locked (kmem_lock m') = 0 \<and> noff c' = noff (unnest c)"
      by (rule Suc.IH [where xs = "[]"]) (use Suc.prems f in simp_all)
    with k Nil show ?thesis by auto
  next
    case (Cons x ys)
    with Suc.prems have f: "freelist m = x" "x \<noteq> 0" "is_freelist (run_next m) (run_next m x) ys"
      "x \<notin> set ys" "distinct ys"
      by simp_all
    let ?m = "m\<lparr>freelist := run_next m x, kmem_lock := unlocked (kmem_lock m),
                  junk := (junk m)(x := 5),
                  run_next := (run_next m)(x := unat (word_rcat (replicate 8 (5::8 word)) :: 64 word))\<rparr>"
    from Suc.prems f have k: "kalloc (m, c) = Inr (x, ?m, unnest c)"
      by (simp add: kalloc_eq)
    have "is_freelist ((run_next m)(x := unat (word_rcat (replicate 8 (5::8 word)) :: 64 word)))
        (run_next m x) ys"
      using f(3) by (simp only: is_freelist_upd [OF f(4)])
    then have i: "is_freelist (run_next ?m) (freelist ?m) ys"
      by simp
    have "\<exists>m' c'. kalloc_times k (?m, unnest c) = Inr (take k ys @ replicate (k - length ys) 0, m', c')
      \<and> locked (kmem_lock m') = 0 \<and> noff c' = noff (unnest c)"
      by (rule Suc.IH [where xs = ys, OF _ _ i]) (use Suc.prems f in simp_all)
    with k Cons show ?thesis by auto
  qed
qed

lemma PGROUNDUP_props:
  assumes "kend + 2 * PGSIZE \<le> 2 ^ 64"
  shows "PGROUNDUP kend mod PGSIZE = 0" "kend \<le> PGROUNDUP kend" "PGROUNDUP kend < kend + PGSIZE"
proof -
  from assms have "kend + PGSIZE - 1 < 2 ^ 64" by (simp add: PGSIZE_def)
  then have e: "PGROUNDUP kend = (kend + PGSIZE - 1) div PGSIZE * PGSIZE"
    by (simp add: PGROUNDUP_def)
  have d: "PGROUNDUP kend = (kend + PGSIZE - 1) - (kend + PGSIZE - 1) mod PGSIZE"
    unfolding e by (simp only: minus_mod_eq_div_mult)
  have l: "(kend + PGSIZE - 1) mod PGSIZE < PGSIZE"
    by (simp add: PGSIZE_def)
  show "PGROUNDUP kend mod PGSIZE = 0" by (simp add: e)
  show "kend \<le> PGROUNDUP kend" using l unfolding d by linarith
  show "PGROUNDUP kend < kend + PGSIZE" using l unfolding d by (simp add: PGSIZE_def)
qed

lemma kinit_ok:
  assumes "freelist m = 0" "0 \<le> noff c" "0 < kend" "kend + 2 * PGSIZE \<le> 2 ^ 64"
    "PHYSTOP + PGSIZE < 2 ^ 64"
  shows "\<exists>m' c'. kinit kend PHYSTOP (m, c) = Inr (m', c')
      \<and> locked (kmem_lock m') = 0 \<and> noff c' = noff c
      \<and> is_freelist (run_next m') (freelist m') (rev (frames_from (PGROUNDUP kend) PHYSTOP))"
proof -
  note p = PGROUNDUP_props [OF assms(4)]
  let ?m = "m\<lparr>kmem_lock := initlock\<rparr>"
  have "\<exists>m' c'. freerange_loop kend PHYSTOP (PGROUNDUP kend) PHYSTOP (?m, c) = Inr (m', c')
      \<and> locked (kmem_lock m') = 0 \<and> noff c' = noff c
      \<and> is_freelist (run_next m') (freelist m') (rev (frames_from (PGROUNDUP kend) PHYSTOP) @ [])"
  proof (rule freerange_loop_ok)
    show "locked (kmem_lock ?m) = 0" by (simp add: initlock_def)
    show "0 \<le> noff c" by fact
    show "is_freelist (run_next ?m) (freelist ?m) []" using assms(1) by simp
    show "\<forall>x\<in>set []. x < PGROUNDUP kend" by simp
    show "PGROUNDUP kend mod PGSIZE = 0" by (rule p)
    show "kend \<le> PGROUNDUP kend" by (rule p)
    show "0 < PGROUNDUP kend" using p(2) assms(3) by simp
    show "PHYSTOP \<le> PHYSTOP" by simp
    show "PHYSTOP + PGSIZE < 2 ^ 64" by fact
    show "PGROUNDUP kend + PGSIZE < 2 ^ 64" using p(3) assms(4) by simp
  qed
  then show ?thesis
    by (simp add: kinit_def freerange_def)
qed

text \<open>
  C9. After \<open>kinit\<close> (on the zeroed allocator, with \<open>end\<close> not null and the region
  away from the top of the address space), \<open>k\<close> successive \<open>kalloc\<close> calls return
  the frames of the region from the highest down, the reverse of the order in
  which \<open>freerange\<close> freed them, and null once they are used up: the frames
  returned are distinct, 4096-aligned and within \<open>[end, PHYSTOP)\<close>. \<open>kalloc\<close> on
  an empty free list returns null. A \<open>kalloc\<close> right after \<open>kfree(p)\<close> returns
  \<open>p\<close> and leaves the free list as it was before the \<open>kfree\<close>.
\<close>

theorem kalloc_kfree_lifo:
  "(freelist m = 0 \<and> 0 \<le> noff c \<and> 0 < kend \<and> kend + 2 * PGSIZE \<le> 2 ^ 64
      \<and> PHYSTOP + PGSIZE < 2 ^ 64 \<longrightarrow>
      (\<exists>m1 c1. kinit kend PHYSTOP (m, c) = Inr (m1, c1) \<and>
         (\<forall>k. \<exists>rs m2 c2. kalloc_times k (m1, c1) = Inr (rs, m2, c2)
            \<and> locked (kmem_lock m2) = 0 \<and> noff c2 = noff c
            \<and> rs = take k (rev (frames_from (PGROUNDUP kend) PHYSTOP))
                   @ replicate (k - length (frames_from (PGROUNDUP kend) PHYSTOP)) 0
            \<and> distinct (filter (\<lambda>p. p \<noteq> 0) rs)
            \<and> (\<forall>p \<in> set rs. p \<noteq> 0 \<longrightarrow> p mod PGSIZE = 0 \<and> kend \<le> p \<and> p + PGSIZE \<le> PHYSTOP))))
   \<and> (locked (kmem_lock m) = 0 \<and> 0 \<le> noff c \<and> freelist m = 0 \<longrightarrow>
        (\<exists>m' c'. kalloc (m, c) = Inr (0, m', c') \<and> freelist m' = 0))
   \<and> (kfree kend PHYSTOP p (m, c) = Inr (m1, c1) \<longrightarrow>
        (\<exists>m2 c2. kalloc (m1, c1) = Inr (p, m2, c2) \<and> (p \<noteq> 0 \<longrightarrow> freelist m2 = freelist m)))"
proof -
  let ?fs = "frames_from (PGROUNDUP kend) PHYSTOP"
  have 1: "freelist m = 0 \<and> 0 \<le> noff c \<and> 0 < kend \<and> kend + 2 * PGSIZE \<le> 2 ^ 64
      \<and> PHYSTOP + PGSIZE < 2 ^ 64 \<longrightarrow>
      (\<exists>m1 c1. kinit kend PHYSTOP (m, c) = Inr (m1, c1) \<and>
         (\<forall>k. \<exists>rs m2 c2. kalloc_times k (m1, c1) = Inr (rs, m2, c2)
            \<and> locked (kmem_lock m2) = 0 \<and> noff c2 = noff c
            \<and> rs = take k (rev ?fs) @ replicate (k - length ?fs) 0
            \<and> distinct (filter (\<lambda>p. p \<noteq> 0) rs)
            \<and> (\<forall>p \<in> set rs. p \<noteq> 0 \<longrightarrow> p mod PGSIZE = 0 \<and> kend \<le> p \<and> p + PGSIZE \<le> PHYSTOP)))"
  proof
    assume a: "freelist m = 0 \<and> 0 \<le> noff c \<and> 0 < kend \<and> kend + 2 * PGSIZE \<le> 2 ^ 64
      \<and> PHYSTOP + PGSIZE < 2 ^ 64"
    then have k4: "kend + 2 * PGSIZE \<le> 2 ^ 64" by simp
    from a kinit_ok [of m c kend PHYSTOP] obtain m1 c1 where
      i: "kinit kend PHYSTOP (m, c) = Inr (m1, c1)" "locked (kmem_lock m1) = 0" "noff c1 = noff c"
      "is_freelist (run_next m1) (freelist m1) (rev ?fs)"
      by blast
    note pu = PGROUNDUP_props [OF k4]
    have fr: "x \<in> set ?fs \<Longrightarrow> x \<noteq> 0 \<and> x mod PGSIZE = 0 \<and> kend \<le> x \<and> x + PGSIZE \<le> PHYSTOP" for x
      using frames_from_props [of x "PGROUNDUP kend" PHYSTOP] pu a by auto
    have "\<exists>rs m2 c2. kalloc_times k (m1, c1) = Inr (rs, m2, c2)
            \<and> locked (kmem_lock m2) = 0 \<and> noff c2 = noff c
            \<and> rs = take k (rev ?fs) @ replicate (k - length ?fs) 0
            \<and> distinct (filter (\<lambda>p. p \<noteq> 0) rs)
            \<and> (\<forall>p \<in> set rs. p \<noteq> 0 \<longrightarrow> p mod PGSIZE = 0 \<and> kend \<le> p \<and> p + PGSIZE \<le> PHYSTOP)" for k
    proof -
      let ?rs = "take k (rev ?fs) @ replicate (k - length ?fs) 0"
      have "\<exists>m' c'. kalloc_times k (m1, c1) = Inr (take k (rev ?fs) @ replicate (k - length (rev ?fs)) 0, m', c')
          \<and> locked (kmem_lock m') = 0 \<and> noff c' = noff c1"
        by (rule kalloc_times_eq) (use i a in \<open>simp_all add: frames_from_distinct\<close>)
      then obtain m2 c2 where t: "kalloc_times k (m1, c1) = Inr (?rs, m2, c2)"
        "locked (kmem_lock m2) = 0" "noff c2 = noff c"
        using i(3) by auto
      have s: "set (take k (rev ?fs)) \<subseteq> set ?fs"
        using set_take_subset [of k "rev ?fs"] by simp
      with fr have "filter (\<lambda>p. p \<noteq> 0) (take k (rev ?fs)) = take k (rev ?fs)"
        by (intro filter_True) blast
      then have f: "filter (\<lambda>p. p \<noteq> 0) ?rs = take k (rev ?fs)"
        by simp
      have d: "distinct (take k (rev ?fs))"
        by (simp add: frames_from_distinct)
      have "\<forall>p \<in> set ?rs. p \<noteq> 0 \<longrightarrow> p mod PGSIZE = 0 \<and> kend \<le> p \<and> p + PGSIZE \<le> PHYSTOP"
        using s fr by auto
      with t f d show ?thesis
        by (intro exI [of _ ?rs] exI [of _ m2] exI [of _ c2]) simp
    qed
    with i(1) show "\<exists>m1 c1. kinit kend PHYSTOP (m, c) = Inr (m1, c1) \<and>
         (\<forall>k. \<exists>rs m2 c2. kalloc_times k (m1, c1) = Inr (rs, m2, c2)
            \<and> locked (kmem_lock m2) = 0 \<and> noff c2 = noff c
            \<and> rs = take k (rev ?fs) @ replicate (k - length ?fs) 0
            \<and> distinct (filter (\<lambda>p. p \<noteq> 0) rs)
            \<and> (\<forall>p \<in> set rs. p \<noteq> 0 \<longrightarrow> p mod PGSIZE = 0 \<and> kend \<le> p \<and> p + PGSIZE \<le> PHYSTOP))"
      by blast
  qed
  have 2: "locked (kmem_lock m) = 0 \<and> 0 \<le> noff c \<and> freelist m = 0 \<longrightarrow>
        (\<exists>m' c'. kalloc (m, c) = Inr (0, m', c') \<and> freelist m' = 0)"
    by (simp add: kalloc_eq)
  have 3: "kfree kend PHYSTOP p (m, c) = Inr (m1, c1) \<longrightarrow>
        (\<exists>m2 c2. kalloc (m1, c1) = Inr (p, m2, c2) \<and> (p \<noteq> 0 \<longrightarrow> freelist m2 = freelist m))"
  proof
    assume k: "kfree kend PHYSTOP p (m, c) = Inr (m1, c1)"
    note r = kfree_Inr [OF k]
    from r have "locked (kmem_lock m1) = 0" "0 \<le> noff c1" "freelist m1 = p" "run_next m1 p = freelist m"
      by simp_all
    then show "\<exists>m2 c2. kalloc (m1, c1) = Inr (p, m2, c2) \<and> (p \<noteq> 0 \<longrightarrow> freelist m2 = freelist m)"
      by (simp add: kalloc_eq)
  qed
  from 1 2 3 show ?thesis
    by (intro conjI)
qed

lemma frames_example: "frames_from (PGROUNDUP 0x80020000) 0x80022000 = [0x80020000, 0x80021000]"
  by (simp add: PGROUNDUP_def PGSIZE_def frames_from.simps)

text \<open>
  Example E1: over \<open>[0x80020000, 0x80022000)\<close> three \<open>kalloc\<close>s return
  \<open>0x80021000\<close>, \<open>0x80020000\<close> and null; after \<open>kfree\<close> of the second, \<open>kalloc\<close>
  returns it again.
\<close>

theorem kalloc_kfree_lifo_witness:
  "\<exists>m1 c1 m2 c2 m3 c3 m4 c4.
      kinit 0x80020000 0x80022000 (zero_kmem, boot_cpu) = Inr (m1, c1)
    \<and> kalloc_times 3 (m1, c1) = Inr ([0x80021000, 0x80020000, 0], m2, c2)
    \<and> kfree 0x80020000 0x80022000 0x80020000 (m2, c2) = Inr (m3, c3)
    \<and> kalloc (m3, c3) = Inr (0x80020000, m4, c4)"
proof -
  let ?K = "0x80020000 :: nat" and ?P = "0x80022000 :: nat"
  have h: "freelist zero_kmem = 0 \<and> 0 \<le> noff boot_cpu \<and> 0 < ?K \<and> ?K + 2 * PGSIZE \<le> 2 ^ 64
      \<and> ?P + PGSIZE < 2 ^ 64"
    by (simp add: zero_kmem_def boot_cpu_def PGSIZE_def)
  note t = kalloc_kfree_lifo [of zero_kmem boot_cpu ?K ?P]
  from t [THEN conjunct1, THEN mp, OF h] obtain m1 c1 where
    i: "kinit ?K ?P (zero_kmem, boot_cpu) = Inr (m1, c1)"
    and a: "\<forall>k. \<exists>rs m2 c2. kalloc_times k (m1, c1) = Inr (rs, m2, c2)
            \<and> locked (kmem_lock m2) = 0 \<and> noff c2 = noff boot_cpu
            \<and> rs = take k (rev (frames_from (PGROUNDUP ?K) ?P))
                   @ replicate (k - length (frames_from (PGROUNDUP ?K) ?P)) 0
            \<and> distinct (filter (\<lambda>p. p \<noteq> 0) rs)
            \<and> (\<forall>p \<in> set rs. p \<noteq> 0 \<longrightarrow> p mod PGSIZE = 0 \<and> ?K \<le> p \<and> p + PGSIZE \<le> ?P)"
    by blast
  from a [rule_format, of 3] obtain rs m2 c2 where
    k: "kalloc_times 3 (m1, c1) = Inr (rs, m2, c2)" "locked (kmem_lock m2) = 0"
      "noff c2 = noff boot_cpu"
      "rs = take 3 (rev (frames_from (PGROUNDUP ?K) ?P))
                   @ replicate (3 - length (frames_from (PGROUNDUP ?K) ?P)) 0"
    by blast
  from k(4) have rs: "rs = [0x80021000, 0x80020000, 0]"
    by (simp add: frames_example)
  from k(2,3) have "\<exists>m3 c3. kfree ?K ?P ?K (m2, c2) = Inr (m3, c3)"
    by (simp add: kfree_eq boot_cpu_def PGSIZE_def)
  then obtain m3 c3 where f: "kfree ?K ?P ?K (m2, c2) = Inr (m3, c3)"
    by blast
  from kalloc_kfree_lifo [of m2 c2 ?K ?P ?K m3 c3, THEN conjunct2, THEN conjunct2, THEN mp, OF f]
  obtain m4 c4 where "kalloc (m3, c3) = Inr (?K, m4, c4)"
    by blast
  with i k(1) rs f show ?thesis
    by blast
qed


section \<open>Properties of the buffer cache\<close>

lemma find_Some_set: "find P xs = Some x \<Longrightarrow> x \<in> set xs \<and> P x"
  by (induction xs) (auto split: if_splits)
lemma find_rev_Some: "find P (rev xs) = Some x \<Longrightarrow> \<exists>ys zs. xs = ys @ x # zs \<and> P x \<and> (\<forall>z \<in> set zs. \<not> P z)"
proof -
  assume "find P (rev xs) = Some x"
  then obtain i where i: "i < length (rev xs)" "P (rev xs ! i)" "x = rev xs ! i" "\<forall>j<i. \<not> P (rev xs ! j)"
    unfolding find_Some_iff by blast
  have "rev xs = take i (rev xs) @ x # drop (Suc i) (rev xs)"
    using i(1,3) by (simp add: id_take_nth_drop)
  then have "xs = rev (drop (Suc i) (rev xs)) @ x # rev (take i (rev xs))"
    by (metis rev_append rev.simps(2) rev_rev_ident append_Cons append_Nil append_assoc)
  moreover have "\<forall>z \<in> set (rev (take i (rev xs))). \<not> P z"
    using i(1,4) by (auto simp: in_set_conv_nth)
  ultimately show ?thesis using i(2,3) by blast
qed

lemma acquiresleep_eq:
  "acquiresleep l k =
     (if locked (lk l) = 0 then
        (if slocked l \<noteq> 0 then Inl Hang
         else if 0 \<le> noff (mycpu k)
              then Inr (l\<lparr>lk := unlocked (lk l), slocked := 1, spid := mypid k\<rparr>,
                        k\<lparr>mycpu := unnest (mycpu k)\<rparr>)
              else Inl (Panic ''pop_off''))
      else if owner (lk l) = Some (hartid (mycpu k)) then Inl (Panic ''acquire'') else Inl Hang)"
  by (simp add: acquiresleep_def acquire_eq release_eq holding_def pop_push_off_eq Let_def unlocked_def)

lemma releasesleep_eq:
  "releasesleep a l k =
     (if locked (lk l) = 0 then
        (if 0 \<le> noff (mycpu k)
         then Inr (l\<lparr>lk := unlocked (lk l), slocked := 0, spid := 0\<rparr>,
                   k\<lparr>parked := (\<lambda>p. if parked k p = Some a then None else parked k p),
                     mycpu := unnest (mycpu k)\<rparr>)
         else Inl (Panic ''pop_off''))
      else if owner (lk l) = Some (hartid (mycpu k)) then Inl (Panic ''acquire'') else Inl Hang)"
  by (simp add: releasesleep_def acquire_eq release_eq holding_def pop_push_off_eq Let_def unlocked_def
      wakeup_def cong: if_cong)

lemma holdingsleep_eq:
  "holdingsleep l k =
     (if locked (lk l) = 0 then
        (if 0 \<le> noff (mycpu k)
         then Inr (slocked l \<noteq> 0 \<and> spid l = mypid k, l\<lparr>lk := unlocked (lk l)\<rparr>,
                   k\<lparr>mycpu := unnest (mycpu k)\<rparr>)
         else Inl (Panic ''pop_off''))
      else if owner (lk l) = Some (hartid (mycpu k)) then Inl (Panic ''acquire'') else Inl Hang)"
  by (simp add: holdingsleep_def acquire_eq release_eq holding_def pop_push_off_eq Let_def unlocked_def)

lemma unnest_unnest [simp]: "unnest (unnest c) = unnest c"
  by (cases c) (simp add: unnest_def)

lemma bget_Inr:
  assumes "bget d bno s = Inr (b, s')"
  shows "locked (bcache_lock s) = 0" "0 \<le> noff (mycpu (ctx s))"
    "locked (lk (lock (bufs s b))) = 0" "slocked (lock (bufs s b)) = 0"
    "lru s' = lru s" "disk s' = disk s" "writes s' = writes s"
    "bcache_lock s' = unlocked (bcache_lock s)"
    "ctx s' = (ctx s)\<lparr>mycpu := unnest (mycpu (ctx s))\<rparr>"
    "\<And>j. j \<noteq> b \<Longrightarrow> bufs s' j = bufs s j"
    "dev (bufs s' b) = d" "blockno (bufs s' b) = bno" "data (bufs s' b) = data (bufs s b)"
    "lock (bufs s' b) = \<lparr>lk = unlocked (lk (lock (bufs s b))), slocked = 1, spid = mypid (ctx s)\<rparr>"
    "b \<in> set (lru s)"
    "cache_lookup s d bno = Some h \<Longrightarrow>
        b = h \<and> valid (bufs s' b) = valid (bufs s b) \<and> refcnt (bufs s' b) = refcnt (bufs s b) + 1"
    "cache_lookup s d bno = None \<Longrightarrow>
        find (\<lambda>b. refcnt (bufs s b) = 0) (rev (lru s)) = Some b \<and>
        \<not> valid (bufs s' b) \<and> refcnt (bufs s' b) = 1"
  using assms
  by (auto simp: bget_def acquire_bcache_eq release_bcache_eq acquiresleep_buf_def acquiresleep_eq
      holding_def pop_push_off_eq cache_lookup_def Let_def
      split: if_splits option.splits sum.splits dest: find_Some_set)

lemma bread_Inr:
  assumes "bread d bno s = Inr (b, s')"
  shows "locked (bcache_lock s) = 0" "0 \<le> noff (mycpu (ctx s))"
    "locked (lk (lock (bufs s b))) = 0" "slocked (lock (bufs s b)) = 0"
    "lru s' = lru s" "disk s' = disk s" "writes s' = writes s"
    "bcache_lock s' = unlocked (bcache_lock s)"
    "ctx s' = (ctx s)\<lparr>mycpu := unnest (mycpu (ctx s))\<rparr>"
    "\<And>j. j \<noteq> b \<Longrightarrow> bufs s' j = bufs s j"
    "dev (bufs s' b) = d" "blockno (bufs s' b) = bno" "valid (bufs s' b)"
    "lock (bufs s' b) = \<lparr>lk = unlocked (lk (lock (bufs s b))), slocked = 1, spid = mypid (ctx s)\<rparr>"
    "b \<in> set (lru s)"
    "cache_lookup s d bno = Some h \<Longrightarrow>
        b = h \<and> refcnt (bufs s' b) = refcnt (bufs s b) + 1 \<and>
        data (bufs s' b) = (if valid (bufs s b) then data (bufs s b) else disk s (d, bno))"
    "cache_lookup s d bno = None \<Longrightarrow>
        find (\<lambda>b. refcnt (bufs s b) = 0) (rev (lru s)) = Some b \<and>
        refcnt (bufs s' b) = 1 \<and> data (bufs s' b) = disk s (d, bno)"
proof -
  from assms obtain s1 where g: "bget d bno s = Inr (b, s1)"
    and s': "s' = (if \<not> valid (bufs s1 b)
          then let s2 = virtio_disk_rw b False s1
               in s2\<lparr>bufs := (bufs s2)(b := (bufs s2 b)\<lparr>valid := True\<rparr>)\<rparr>
          else s1)"
    by (auto simp: bread_def Let_def split: sum.splits if_splits prod.splits)
  note r = bget_Inr [OF g]
  show "locked (bcache_lock s) = 0" "0 \<le> noff (mycpu (ctx s))"
    "locked (lk (lock (bufs s b))) = 0" "slocked (lock (bufs s b)) = 0" "b \<in> set (lru s)"
    by (rule r)+
  show "lru s' = lru s" "disk s' = disk s" "writes s' = writes s"
    "bcache_lock s' = unlocked (bcache_lock s)"
    "ctx s' = (ctx s)\<lparr>mycpu := unnest (mycpu (ctx s))\<rparr>"
    using r(5-9) by (simp_all add: s' virtio_disk_rw_def Let_def)
  show "\<And>j. j \<noteq> b \<Longrightarrow> bufs s' j = bufs s j"
    using r(10) by (simp add: s' virtio_disk_rw_def Let_def)
  show "dev (bufs s' b) = d" "blockno (bufs s' b) = bno" "valid (bufs s' b)"
    "lock (bufs s' b) = \<lparr>lk = unlocked (lk (lock (bufs s b))), slocked = 1, spid = mypid (ctx s)\<rparr>"
    using r(11,12,14) by (simp_all add: s' virtio_disk_rw_def Let_def)
  show "cache_lookup s d bno = Some h \<Longrightarrow>
        b = h \<and> refcnt (bufs s' b) = refcnt (bufs s b) + 1 \<and>
        data (bufs s' b) = (if valid (bufs s b) then data (bufs s b) else disk s (d, bno))"
    using r(16) [of h] r(6,11,12,13) by (auto simp add: s' virtio_disk_rw_def Let_def)
  show "cache_lookup s d bno = None \<Longrightarrow>
        find (\<lambda>b. refcnt (bufs s b) = 0) (rev (lru s)) = Some b \<and>
        refcnt (bufs s' b) = 1 \<and> data (bufs s' b) = disk s (d, bno)"
    using r(17) r(6,11,12,13) by (simp add: s' virtio_disk_rw_def Let_def)
qed

lemma unlocked_idem [simp]: "unlocked (unlocked l) = unlocked l"
  by (simp add: unlocked_def)

lemma unlocked_upd [simp]: "unlocked (l\<lparr>locked := a, owner := b\<rparr>) = unlocked l"
  by (simp add: unlocked_def)

lemma holdingsleep_buf_eq:
  "holdingsleep_buf b s =
     (if locked (lk (lock (bufs s b))) = 0 then
        (if 0 \<le> noff (mycpu (ctx s))
         then Inr (slocked (lock (bufs s b)) \<noteq> 0 \<and> spid (lock (bufs s b)) = mypid (ctx s),
                   s\<lparr>bufs := (bufs s)(b := (bufs s b)\<lparr>lock := (lock (bufs s b))\<lparr>lk := unlocked (lk (lock (bufs s b)))\<rparr>\<rparr>),
                     ctx := (ctx s)\<lparr>mycpu := unnest (mycpu (ctx s))\<rparr>\<rparr>)
         else Inl (Panic ''pop_off''))
      else if owner (lk (lock (bufs s b))) = Some (hartid (mycpu (ctx s))) then Inl (Panic ''acquire'')
      else Inl Hang)"
  by (simp add: holdingsleep_buf_def holdingsleep_eq)

lemma bwrite_Inr:
  assumes "bwrite b s = Inr s'"
  shows "locked (lk (lock (bufs s b))) = 0" "0 \<le> noff (mycpu (ctx s))"
    "slocked (lock (bufs s b)) \<noteq> 0" "spid (lock (bufs s b)) = mypid (ctx s)"
    "writes s' = writes s @ [(dev (bufs s b), blockno (bufs s b), data (bufs s b))]"
    "disk s' = (disk s)((dev (bufs s b), blockno (bufs s b)) := data (bufs s b))"
    "lru s' = lru s" "bcache_lock s' = bcache_lock s"
    "ctx s' = (ctx s)\<lparr>mycpu := unnest (mycpu (ctx s))\<rparr>"
    "bufs s' = (bufs s)(b := (bufs s b)\<lparr>lock := (lock (bufs s b))\<lparr>lk := unlocked (lk (lock (bufs s b)))\<rparr>\<rparr>)"
  using assms
  by (auto simp: bwrite_def holdingsleep_buf_eq virtio_disk_rw_def Let_def split: if_splits)

lemma brelse_Inr:
  assumes "brelse b s = Inr s'"
  shows "locked (lk (lock (bufs s b))) = 0" "0 \<le> noff (mycpu (ctx s))"
    "locked (bcache_lock s) = 0"
    "slocked (lock (bufs s b)) \<noteq> 0" "spid (lock (bufs s b)) = mypid (ctx s)"
    "writes s' = writes s" "disk s' = disk s"
    "lru s' = (if refcnt (bufs s b) = 1 then b # remove1 b (lru s) else lru s)"
    "bcache_lock s' = unlocked (bcache_lock s)"
    "ctx s' = (ctx s)\<lparr>mycpu := unnest (mycpu (ctx s)),
        parked := (\<lambda>p. if parked (ctx s) p = Some (Lock_of_buf b) then None else parked (ctx s) p)\<rparr>"
    "bufs s' = (bufs s)(b := (bufs s b)\<lparr>lock := \<lparr>lk = unlocked (lk (lock (bufs s b))), slocked = 0, spid = 0\<rparr>,
        refcnt := refcnt (bufs s b) - 1\<rparr>)"
  using assms
  by (auto simp: brelse_def holdingsleep_buf_eq releasesleep_buf_def releasesleep_eq
      acquire_bcache_eq release_bcache_eq holding_def pop_push_off_eq Let_def
      split: if_splits cong: if_cong)

lemma binit_lru_aux:
  "lru (fold (\<lambda>b s. s\<lparr>bufs := (bufs s)(b := (bufs s b)\<lparr>lock := initsleeplock\<rparr>),
                        lru := b # lru s\<rparr>) xs s) = rev xs @ lru s"
  by (induction xs arbitrary: s) simp_all

lemma binit_lru: "lru (binit n s) = rev [0..<n]"
  by (simp add: binit_def Let_def binit_lru_aux)

lemma lru_inv_init: "lru_inv (binit n s, hist0)"
  by (simp add: lru_inv_def binit_lru hist0_def)

lemma sorted_wrt_remove1: "sorted_wrt R xs \<Longrightarrow> sorted_wrt R (remove1 x xs)"
  by (induction xs) (auto dest: notin_set_remove1 [rotated])

lemma bstep_lru_inv:
  assumes "lru_inv (s, h)" "bstep x (s, h) = Inr (s', h')"
  shows "lru_inv (s', h')"
proof (cases x)
  case (Bread d bno)
  with assms(2) obtain b where "bread d bno s = Inr (b, s')" "h' = h"
    by (auto split: sum.splits)
  with assms(1) bread_Inr(5) [of d bno s b s'] show ?thesis
    by (simp add: lru_inv_def)
next
  case (Bwrite b)
  with assms(2) have "bwrite b s = Inr s'" "h' = h"
    by (auto split: sum.splits)
  with assms(1) bwrite_Inr(7) [of b s s'] show ?thesis
    by (simp add: lru_inv_def)
next
  case (Bpin b)
  with assms(2) have "bpin b s = Inr s'" "h' = h"
    by (auto split: sum.splits)
  with assms(1) show ?thesis
    by (simp add: lru_inv_def bpin_iff)
next
  case (Bunpin b)
  with assms(2) have "bunpin b s = Inr s'" "h' = h"
    by (auto split: sum.splits)
  with assms(1) show ?thesis
    by (simp add: lru_inv_def bunpin_iff)
next
  case (Brelse b)
  with assms(2) have r: "brelse b s = Inr s'"
    and h': "h' = (if refcnt (bufs s' b) = 0
                  then h\<lparr>clock := clock h + 1, released := (released h)(b := clock h + 1)\<rparr>
                  else h)"
    by (auto split: sum.splits)
  note e = brelse_Inr [OF r]
  from e(11) have z: "refcnt (bufs s' b) = 0 \<longleftrightarrow> refcnt (bufs s b) = 1"
    by simp
  show ?thesis
  proof (cases "refcnt (bufs s b) = 1")
    case False
    with z h' e(8) assms(1) show ?thesis
      by (simp add: lru_inv_def)
  next
    case True
    with z h' have h2: "h' = h\<lparr>clock := clock h + 1, released := (released h)(b := clock h + 1)\<rparr>"
      by simp
    from True e(8) have l: "lru s' = b # remove1 b (lru s)"
      by simp
    from assms(1) have d: "distinct (lru s)"
      and so: "sorted_wrt (\<lambda>i j. released h j \<le> released h i) (lru s)"
      and c: "\<forall>b. released h b \<le> clock h"
      by (simp_all add: lru_inv_def)
    from d have nb: "b \<notin> set (remove1 b (lru s))"
      by simp
    have "sorted_wrt (\<lambda>i j. released h j \<le> released h i) (remove1 b (lru s))"
      using so by (rule sorted_wrt_remove1)
    then have "sorted_wrt (\<lambda>i j. released h' j \<le> released h' i) (remove1 b (lru s))"
      using nb by (auto simp: h2 elim!: sorted_wrt_mono_rel [rotated])
    moreover have "\<forall>j \<in> set (remove1 b (lru s)). released h' j \<le> released h' b"
      using c nb by (auto simp: h2 intro: le_SucI)
    moreover have "\<forall>b. released h' b \<le> clock h'"
      using c by (auto simp: h2 intro: le_SucI)
    ultimately show ?thesis
      using d nb by (simp add: lru_inv_def l)
  qed
qed

lemma brun_lru_inv: "lru_inv sh \<Longrightarrow> brun xs sh = Inr sh' \<Longrightarrow> lru_inv sh'"
proof (induction xs arbitrary: sh)
  case Nil
  then show ?case by simp
next
  case (Cons x xs)
  from Cons.prems(2) obtain sh1 where 1: "bstep x sh = Inr sh1" and 2: "brun xs sh1 = Inr sh'"
    by (auto split: sum.splits)
  from Cons.prems(1) 1 have "lru_inv sh1"
    using bstep_lru_inv [of "fst sh" "snd sh" x "fst sh1" "snd sh1"] by simp
  from this 2 show ?case by (rule Cons.IH)
qed

lemma bget_miss_lru:
  assumes i: "lru_inv (s, h)" and m: "cache_lookup s d bno = None" and g: "bget d bno s = Inr (b, s')"
  shows "refcnt (bufs s b) = 0 \<and> (\<forall>j \<in> set (lru s). refcnt (bufs s j) = 0 \<longrightarrow> released h b \<le> released h j)"
proof -
  from bget_Inr(17) [OF g m] have f: "find (\<lambda>b. refcnt (bufs s b) = 0) (rev (lru s)) = Some b"
    by simp
  from find_rev_Some [OF f] obtain ys zs where
    l: "lru s = ys @ b # zs" "refcnt (bufs s b) = 0" "\<forall>z \<in> set zs. refcnt (bufs s z) \<noteq> 0"
    by blast
  from i have so: "sorted_wrt (\<lambda>i j. released h j \<le> released h i) (lru s)"
    by (simp add: lru_inv_def)
  have "released h b \<le> released h j" if "j \<in> set (lru s)" "refcnt (bufs s j) = 0" for j
  proof -
    from that l have "j \<in> set ys \<or> j = b" by auto
    then show ?thesis
      using so unfolding l(1) by (auto simp: sorted_wrt_append)
  qed
  with l(2) show ?thesis by blast
qed

lemma e3_run: "\<not> isl (brun e3_ops (binit 3 (zero_kstate 1 (\<lambda>a w. 0)), hist0))"
  by code_simp

lemma e3_a: "lru (fst e3_cache) = [2, 1, 0] \<and> map (\<lambda>b. blockno (bufs (fst e3_cache) b)) [0, 1, 2] = [10, 11, 12]
  \<and> map (\<lambda>b. refcnt (bufs (fst e3_cache) b)) [0, 1, 2] = [0, 0, 0]
  \<and> map (released (snd e3_cache)) [0, 1, 2] = [1, 2, 3]"
  by code_simp

lemma e3_b: "\<not> isl (bread 1 13 (fst e3_cache)) \<and> fst (projr (bread 1 13 (fst e3_cache))) = 0
  \<and> map (\<lambda>b. blockno (bufs (snd (projr (bread 1 13 (fst e3_cache)))) b)) [0, 1, 2] = [13, 11, 12]"
  by code_simp

lemma e3_c: "cache_lookup (fst e3_cache) 1 13 = None"
  by code_simp

lemma e3_d: "\<not> isl (bget 1 13 (fst e3_cache)) \<and> fst (projr (bget 1 13 (fst e3_cache))) = 0"
  by code_simp

lemma bget_no_buffers:
  assumes "locked (bcache_lock s) = 0" "cache_lookup s d bno = None"
    "\<forall>j \<in> set (lru s). refcnt (bufs s j) \<noteq> 0"
  shows "bget d bno s = Inl (Panic ''bget: no buffers'')"
proof -
  from assms(3) have "find (\<lambda>b. refcnt (bufs s b) = 0) (rev (lru s)) = None"
    by (simp add: find_None_iff)
  with assms(1,2) show ?thesis
    by (simp add: bget_def acquire_bcache_eq cache_lookup_def)
qed

text \<open>
  C7. Let the cache be in any state reached from \<open>binit\<close> by calls of \<open>bread\<close>,
  \<open>bwrite\<close>, \<open>brelse\<close>, \<open>bpin\<close> and \<open>bunpin\<close>. When \<open>bget(dev, blockno)\<close> finds
  no buffer with that identity and returns buffer \<open>b\<close>, then \<open>b\<close> had \<open>refcnt = 0\<close>,
  every buffer nearer to the least recently used end of the list is in use, and no
  buffer with \<open>refcnt = 0\<close> was released less recently than \<open>b\<close>; \<open>b\<close> now has
  the new identity, \<open>valid = 0\<close> and \<open>refcnt = 1\<close>. \<open>brelse\<close> moves a buffer to
  the most recently used end exactly when its \<open>refcnt\<close> reaches 0. If no buffer
  has \<open>refcnt = 0\<close>, the call panics. With three buffers, after \<open>bread\<close> and
  \<open>brelse\<close> of blocks 10, 11, 12, a \<open>bread\<close> of block 13 returns the buffer of
  block 10 and leaves those of blocks 11 and 12.
\<close>

theorem bget_recycles_least_recently_released:
  "(brun ops (binit NBUF s0, hist0) = Inr (s, h) \<and> cache_lookup s d bno = None
      \<and> bget d bno s = Inr (b, s') \<longrightarrow>
      refcnt (bufs s b) = 0
      \<and> (\<exists>ys zs. lru s = ys @ b # zs \<and> (\<forall>z \<in> set zs. refcnt (bufs s z) \<noteq> 0))
      \<and> (\<forall>j \<in> set (lru s). refcnt (bufs s j) = 0 \<longrightarrow> released h b \<le> released h j)
      \<and> dev (bufs s' b) = d \<and> blockno (bufs s' b) = bno \<and> \<not> valid (bufs s' b)
      \<and> refcnt (bufs s' b) = 1)
   \<and> (brelse c t = Inr t' \<longrightarrow>
        lru t' = (if refcnt (bufs t' c) = 0 then c # remove1 c (lru t) else lru t))
   \<and> (locked (bcache_lock t) = 0 \<and> cache_lookup t d bno = None
        \<and> (\<forall>j \<in> set (lru t). refcnt (bufs t j) \<noteq> 0) \<longrightarrow>
        bget d bno t = Inl (Panic ''bget: no buffers''))
   \<and> (\<exists>u. bread 1 13 (fst e3_cache) = Inr (0, u)
        \<and> map (\<lambda>b. blockno (bufs (fst e3_cache) b)) [0, 1, 2] = [10, 11, 12]
        \<and> map (\<lambda>b. blockno (bufs u b)) [0, 1, 2] = [13, 11, 12])"
proof -
  have 1: "brun ops (binit NBUF s0, hist0) = Inr (s, h) \<and> cache_lookup s d bno = None
      \<and> bget d bno s = Inr (b, s') \<longrightarrow>
      refcnt (bufs s b) = 0
      \<and> (\<exists>ys zs. lru s = ys @ b # zs \<and> (\<forall>z \<in> set zs. refcnt (bufs s z) \<noteq> 0))
      \<and> (\<forall>j \<in> set (lru s). refcnt (bufs s j) = 0 \<longrightarrow> released h b \<le> released h j)
      \<and> dev (bufs s' b) = d \<and> blockno (bufs s' b) = bno \<and> \<not> valid (bufs s' b)
      \<and> refcnt (bufs s' b) = 1"
  proof
    assume a: "brun ops (binit NBUF s0, hist0) = Inr (s, h) \<and> cache_lookup s d bno = None
      \<and> bget d bno s = Inr (b, s')"
    then have r: "brun ops (binit NBUF s0, hist0) = Inr (s, h)"
      and m: "cache_lookup s d bno = None" and g: "bget d bno s = Inr (b, s')"
      by simp_all
    have i: "lru_inv (s, h)"
      using lru_inv_init r by (rule brun_lru_inv)
    note e = bget_Inr [OF g]
    from e(17) [OF m] have f: "find (\<lambda>b. refcnt (bufs s b) = 0) (rev (lru s)) = Some b"
      "\<not> valid (bufs s' b)" "refcnt (bufs s' b) = 1"
      by simp_all
    from find_rev_Some [OF f(1)]
    have "\<exists>ys zs. lru s = ys @ b # zs \<and> (\<forall>z \<in> set zs. refcnt (bufs s z) \<noteq> 0)"
      by blast
    with bget_miss_lru [OF i m g] e(11,12) f(2,3)
    show "refcnt (bufs s b) = 0
      \<and> (\<exists>ys zs. lru s = ys @ b # zs \<and> (\<forall>z \<in> set zs. refcnt (bufs s z) \<noteq> 0))
      \<and> (\<forall>j \<in> set (lru s). refcnt (bufs s j) = 0 \<longrightarrow> released h b \<le> released h j)
      \<and> dev (bufs s' b) = d \<and> blockno (bufs s' b) = bno \<and> \<not> valid (bufs s' b)
      \<and> refcnt (bufs s' b) = 1"
      by simp
  qed
  have 2: "brelse c t = Inr t' \<longrightarrow>
        lru t' = (if refcnt (bufs t' c) = 0 then c # remove1 c (lru t) else lru t)"
  proof
    assume r: "brelse c t = Inr t'"
    from brelse_Inr(11) [OF r] have "refcnt (bufs t' c) = 0 \<longleftrightarrow> refcnt (bufs t c) = 1"
      by simp
    with brelse_Inr(8) [OF r]
    show "lru t' = (if refcnt (bufs t' c) = 0 then c # remove1 c (lru t) else lru t)"
      by simp
  qed
  have 3: "locked (bcache_lock t) = 0 \<and> cache_lookup t d bno = None
        \<and> (\<forall>j \<in> set (lru t). refcnt (bufs t j) \<noteq> 0) \<longrightarrow>
        bget d bno t = Inl (Panic ''bget: no buffers'')"
    using bget_no_buffers by blast
  have "bread 1 13 (fst e3_cache) = Inr (projr (bread 1 13 (fst e3_cache)))"
    using e3_b by simp
  also have "projr (bread 1 13 (fst e3_cache)) = (0, snd (projr (bread 1 13 (fst e3_cache))))"
    using e3_b by (simp add: prod_eq_iff)
  finally have "bread 1 13 (fst e3_cache) = Inr (0, snd (projr (bread 1 13 (fst e3_cache))))
        \<and> map (\<lambda>b. blockno (bufs (fst e3_cache) b)) [0, 1, 2] = [10, 11, 12]
        \<and> map (\<lambda>b. blockno (bufs (snd (projr (bread 1 13 (fst e3_cache)))) b)) [0, 1, 2] = [13, 11, 12]"
    using e3_a e3_b by simp
  then have 4: "\<exists>u. bread 1 13 (fst e3_cache) = Inr (0, u)
        \<and> map (\<lambda>b. blockno (bufs (fst e3_cache) b)) [0, 1, 2] = [10, 11, 12]
        \<and> map (\<lambda>b. blockno (bufs u b)) [0, 1, 2] = [13, 11, 12]"
    by (rule exI)
  from 1 2 3 4 show ?thesis
    by (intro conjI)
qed

text \<open>
  In the cache of example E3 the three buffers were released at times 1, 2 and 3;
  \<open>bget\<close> for block 13 takes buffer 0, released first. When process 1 holds all
  three buffers instead, \<open>bget\<close> for a fourth block panics.
\<close>

theorem bget_recycles_least_recently_released_witness:
  "(\<exists>s h s'. brun e3_ops (binit 3 (zero_kstate 1 (\<lambda>a w. 0)), hist0) = Inr (s, h)
      \<and> bget 1 13 s = Inr (0, s')
      \<and> lru s = [2, 1, 0] \<and> map (released h) [0, 1, 2] = [1, 2, 3]
      \<and> map (\<lambda>b. refcnt (bufs s b)) [0, 1, 2] = [0, 0, 0]
      \<and> blockno (bufs s' 0) = 13 \<and> refcnt (bufs s' 0) = 1 \<and> \<not> valid (bufs s' 0))
   \<and> (\<exists>t h t'. brun [Bread 1 10, Bread 1 11, Bread 1 12] (binit 3 (zero_kstate 1 (\<lambda>a w. 0)), hist0)
          = Inr (t, h)
        \<and> bget 1 13 t = Inl (Panic ''bget: no buffers'')
        \<and> brelse 1 t = Inr t' \<and> lru t = [2, 1, 0] \<and> lru t' = [1, 2, 0])"
proof -
  let ?init = "binit 3 (zero_kstate 1 (\<lambda>a w. 0))"
  let ?s = "fst e3_cache" and ?h = "snd e3_cache"
  let ?s' = "snd (projr (bget 1 13 ?s))"
  have "brun e3_ops (?init, hist0) = Inr (projr (brun e3_ops (?init, hist0)))"
    using e3_run by simp
  then have r: "brun e3_ops (?init, hist0) = Inr (?s, ?h)"
    by (simp only: e3_cache_def prod.collapse)
  have "bget 1 13 ?s = Inr (projr (bget 1 13 ?s))"
    using e3_d by simp
  also have "projr (bget 1 13 ?s) = (0, ?s')"
    using e3_d by (simp add: prod_eq_iff)
  finally have g: "bget 1 13 ?s = Inr (0, ?s')" .
  have "brun e3_ops (?init, hist0) = Inr (?s, ?h) \<and> cache_lookup ?s 1 13 = None
      \<and> bget 1 13 ?s = Inr (0, ?s')"
    using r e3_c g by (intro conjI)
  from bget_recycles_least_recently_released
      [of e3_ops 3 "zero_kstate 1 (\<lambda>a w. 0)" ?s ?h 1 13 0 ?s', THEN conjunct1, THEN mp, OF this]
  have 1: "blockno (bufs ?s' 0) = 13 \<and> refcnt (bufs ?s' 0) = 1 \<and> \<not> valid (bufs ?s' 0)"
    by simp
  let ?ops = "[Bread 1 10, Bread 1 11, Bread 1 12]"
  let ?t = "fst (projr (brun ?ops (?init, hist0)))"
  let ?t' = "projr (brelse 1 ?t)"
  let ?ht = "snd (projr (brun ?ops (?init, hist0)))"
  have e: "\<not> isl (brun ?ops (?init, hist0))"
    by code_simp
  then have "brun ?ops (?init, hist0) = Inr (projr (brun ?ops (?init, hist0)))"
    by simp
  then have rt: "brun ?ops (?init, hist0) = Inr (?t, ?ht)"
    by (simp only: prod.collapse)
  have p: "locked (bcache_lock ?t) = 0 \<and> cache_lookup ?t 1 13 = None
        \<and> (\<forall>j \<in> set (lru ?t). refcnt (bufs ?t j) \<noteq> 0)"
    by code_simp
  have l: "lru ?t = [2, 1, 0]"
    by code_simp
  have "\<not> isl (brelse 1 ?t)"
    by code_simp
  then have b: "brelse 1 ?t = Inr ?t'"
    by simp
  have z: "refcnt (bufs ?t' 1) = 0"
    by code_simp
  from bget_recycles_least_recently_released [of _ _ _ _ _ 1 13 _ _ 1 ?t ?t',
      THEN conjunct2, THEN conjunct2, THEN conjunct1, THEN mp, OF p]
  have 2: "bget 1 13 ?t = Inl (Panic ''bget: no buffers'')" .
  from bget_recycles_least_recently_released [of _ _ _ _ _ 1 13 _ _ 1 ?t ?t',
      THEN conjunct2, THEN conjunct1, THEN mp, OF b]
  have f: "lru ?t' = (if refcnt (bufs ?t' 1) = 0 then 1 # remove1 1 (lru ?t) else lru ?t)" .
  have 3: "lru ?t' = [1, 2, 0]"
    unfolding f z l by simp
  have "brun e3_ops (?init, hist0) = Inr (?s, ?h)
      \<and> bget 1 13 ?s = Inr (0, ?s')
      \<and> lru ?s = [2, 1, 0] \<and> map (released ?h) [0, 1, 2] = [1, 2, 3]
      \<and> map (\<lambda>b. refcnt (bufs ?s b)) [0, 1, 2] = [0, 0, 0]
      \<and> blockno (bufs ?s' 0) = 13 \<and> refcnt (bufs ?s' 0) = 1 \<and> \<not> valid (bufs ?s' 0)"
    using r g e3_a 1 by (intro conjI) simp_all
  then have A: "\<exists>s h s'. brun e3_ops (?init, hist0) = Inr (s, h)
      \<and> bget 1 13 s = Inr (0, s')
      \<and> lru s = [2, 1, 0] \<and> map (released h) [0, 1, 2] = [1, 2, 3]
      \<and> map (\<lambda>b. refcnt (bufs s b)) [0, 1, 2] = [0, 0, 0]
      \<and> blockno (bufs s' 0) = 13 \<and> refcnt (bufs s' 0) = 1 \<and> \<not> valid (bufs s' 0)"
    by (intro exI)
  have "brun ?ops (?init, hist0) = Inr (?t, ?ht)
        \<and> bget 1 13 ?t = Inl (Panic ''bget: no buffers'')
        \<and> brelse 1 ?t = Inr ?t' \<and> lru ?t = [2, 1, 0] \<and> lru ?t' = [1, 2, 0]"
    using rt 2 b l 3 by (intro conjI)
  then have B: "\<exists>t h t'. brun ?ops (?init, hist0) = Inr (t, h)
        \<and> bget 1 13 t = Inl (Panic ''bget: no buffers'')
        \<and> brelse 1 t = Inr t' \<and> lru t = [2, 1, 0] \<and> lru t' = [1, 2, 0]"
    by (intro exI)
  from A B show ?thesis
    by (intro conjI)
qed


section \<open>Properties of the pipe\<close>



lemma pipe_held_wakeup [simp]: "pipe_held pi (wakeup ch k) = pipe_held pi k"
  by (simp add: pipe_held_def wakeup_def)

lemma pipe_held_upd [simp]:
  "pipe_held (w\<lparr>plock := plock pi\<rparr>) k = pipe_held pi k"
  "pipe_held (pi\<lparr>pdata := d, nwrite := x\<rparr>) k = pipe_held pi k"
  by (simp_all add: pipe_held_def)




lemma pipe_put_fields [simp]:
  "nwrite (pipe_put pi bs) = nwrite pi + of_nat (length bs)"
  "nread (pipe_put pi bs) = nread pi"
  "readopen (pipe_put pi bs) = readopen pi"
  "writeopen (pipe_put pi bs) = writeopen pi"
  "plock (pipe_put pi bs) = plock pi"
  by (induction bs arbitrary: pi) simp_all






lemma store_bytes_mapped:
  "um x \<noteq> None \<Longrightarrow> store_bytes um a bs x \<noteq> None"
  by (induction bs arbitrary: um a) simp_all








lemma pipe_held_put [simp]: "pipe_held (pipe_put pi bs) k = pipe_held pi k"
  by (simp add: pipe_held_def)








lemma pipe_bytes_0 [simp]: "pipe_bytes pi 0 = []"
  by (simp add: pipe_bytes_def)

lemma pipe_bytes_length [simp]: "length (pipe_bytes pi c) = c"
  by (simp add: pipe_bytes_def)















section \<open>The order of the writes of \<open>commit\<close>\<close>

lemma cache_lookup_Some:
  "cache_lookup s d bno = Some h \<Longrightarrow> h \<in> set (lru s) \<and> ident s h = (d, bno)"
  by (auto simp: cache_lookup_def ident_def dest: find_Some_set)

lemma cache_lookup_None:
  "cache_lookup s d bno = None \<Longrightarrow> b \<in> set (lru s) \<Longrightarrow> ident s b \<noteq> (d, bno)"
  by (auto simp: cache_lookup_def ident_def find_None_iff)

lemma find_other:
  assumes "find P xs = Some h" "h \<noteq> b" "\<And>x. x \<noteq> b \<Longrightarrow> Q x = P x" "\<not> Q b"
  shows "find Q xs = Some h"
  using assms(1,2)
proof (induction xs)
  case Nil
  then show ?case by simp
next
  case (Cons x xs)
  then show ?case
    using assms(3,4) by (cases "x = b") (auto split: if_splits)
qed

lemma find_same:
  assumes "\<And>x. x \<in> set xs \<Longrightarrow> Q x = P x"
  shows "find Q xs = find P xs"
  using assms by (intro find_cong) auto

lemma find_move_front: "\<not> P b \<Longrightarrow> find P (b # remove1 b xs) = find P xs"
  by (induction xs) auto

text \<open>identities after bread\<close>

lemma bread_ident:
  assumes "bread d bno s = Inr (b, s')"
  shows "ident s' b = (d, bno)" "\<And>j. j \<noteq> b \<Longrightarrow> ident s' j = ident s j"
    "cache_lookup s d bno \<noteq> None \<Longrightarrow> ident s b = (d, bno)"
    "cache_lookup s d bno = None \<Longrightarrow> \<forall>c \<in> set (lru s). ident s c \<noteq> (d, bno)"
proof -
  note r = bread_Inr [OF assms]
  show "ident s' b = (d, bno)" using r(11,12) by (simp add: ident_def)
  show "\<And>j. j \<noteq> b \<Longrightarrow> ident s' j = ident s j" using r(10) by (simp add: ident_def)
  show "cache_lookup s d bno \<noteq> None \<Longrightarrow> ident s b = (d, bno)"
    using r(16) cache_lookup_Some by fastforce
  show "cache_lookup s d bno = None \<Longrightarrow> \<forall>c \<in> set (lru s). ident s c \<noteq> (d, bno)"
    using cache_lookup_None by blast
qed

lemma bread_uniq:
  assumes "bread d bno s = Inr (b, s')" "uniq s Y"
  shows "uniq s' Y"
proof -
  note r = bread_Inr [OF assms(1)] and i = bread_ident [OF assms(1)]
  show ?thesis
    unfolding uniq_def
  proof (intro ballI impI)
    fix x y assume x: "x \<in> set (lru s')" and y: "y \<in> set (lru s')"
      and e: "ident s' x = Y \<and> ident s' y = Y"
    from x y r(5) have m: "x \<in> set (lru s)" "y \<in> set (lru s)" by simp_all
    show "x = y"
    proof (cases "cache_lookup s d bno")
      case (Some h)
      then have "ident s b = (d, bno)" using i(3) by simp
      with i(1,2) have "ident s' j = ident s j" for j by (cases "j = b") simp_all
      with e m assms(2) show ?thesis by (auto simp: uniq_def)
    next
      case None
      note n = i(4) [OF None]
      show ?thesis
      proof (cases "Y = (d, bno)")
        case True
        have "x = b" using e True i(2) [of x] n m(1) by (cases "x = b") auto
        moreover have "y = b" using e True i(2) [of y] n m(2) by (cases "y = b") auto
        ultimately show ?thesis by simp
      next
        case False
        with e i(1) have "x \<noteq> b" "y \<noteq> b" by auto
        with e i(2) m assms(2) show ?thesis by (auto simp: uniq_def)
      qed
    qed
  qed
qed

lemma bread_holds:
  assumes "bread d bno s = Inr (b, s')" "holds s Y dt"
  shows "holds s' Y dt"
proof -
  note r = bread_Inr [OF assms(1)] and i = bread_ident [OF assms(1)]
  have "data (bufs s' c) = dt"
    if c: "c \<in> set (lru s')" "ident s' c = Y" "valid (bufs s' c)" for c
  proof (cases "c = b")
    case False
    with c r(5,10) i(2) assms(2) show ?thesis by (auto simp: holds_def)
  next
    case True
    with c i(1) have Y: "Y = (d, bno)" by simp
    show ?thesis
    proof (cases "cache_lookup s d bno")
      case None
      with r(17) assms(2) Y True show ?thesis by (simp add: holds_def)
    next
      case (Some h)
      with r(16) [of h] have d: "data (bufs s' b) = (if valid (bufs s b) then data (bufs s b) else disk s (d, bno))"
        by auto
      from Some i(3) have "ident s b = Y" using Y by simp
      with d r(15) assms(2) Y True show ?thesis by (auto simp: holds_def)
    qed
  qed
  with assms(2) r(6) show ?thesis by (simp add: holds_def)
qed

lemma bread_data:
  assumes "bread d bno s = Inr (b, s')" "holds s (d, bno) dt"
  shows "data (bufs s' b) = dt"
proof -
  note r = bread_Inr [OF assms(1)] and i = bread_ident [OF assms(1)]
  from bread_holds [OF assms] r(5,13,15) i(1) show ?thesis
    by (auto simp: holds_def)
qed

lemma bread_pinned_other:
  assumes "bread d bno s = Inr (b, s')" "pinned s Y dt" "Y \<noteq> (d, bno)"
  shows "pinned s' Y dt"
proof -
  note r = bread_Inr [OF assms(1)] and i = bread_ident [OF assms(1)]
  from assms(2) obtain h where h: "cache_lookup s (fst Y) (snd Y) = Some h" "valid (bufs s h)"
    "refcnt (bufs s h) \<noteq> 0" "data (bufs s h) = dt"
    by (auto simp: pinned_def)
  from cache_lookup_Some [OF h(1)] have ih: "ident s h = Y" by simp
  have nb: "h \<noteq> b"
  proof (cases "cache_lookup s d bno")
    case None
    from r(17) [OF None] have "refcnt (bufs s b) = 0" by (auto dest: find_Some_set)
    with h(3) show ?thesis by auto
  next
    case (Some g)
    with i(3) ih assms(3) show ?thesis by auto
  qed
  have "find (\<lambda>c. dev (bufs s' c) = fst Y \<and> blockno (bufs s' c) = snd Y) (lru s) = Some h"
  proof (rule find_other [where b = b, OF h(1) [unfolded cache_lookup_def] nb])
    show "\<And>x. x \<noteq> b \<Longrightarrow> (dev (bufs s' x) = fst Y \<and> blockno (bufs s' x) = snd Y) =
        (dev (bufs s x) = fst Y \<and> blockno (bufs s x) = snd Y)"
      using r(10) by simp
    show "\<not> (dev (bufs s' b) = fst Y \<and> blockno (bufs s' b) = snd Y)"
      using r(11,12) assms(3) by (cases Y) auto
  qed
  with r(5) have "cache_lookup s' (fst Y) (snd Y) = Some h" by (simp add: cache_lookup_def)
  with h nb r(10) show ?thesis by (auto simp: pinned_def)
qed

lemma bread_pinned_same:
  assumes "bread d bno s = Inr (b, s')" "pinned s (d, bno) dt"
  shows "cache_lookup s d bno = Some b" "data (bufs s' b) = dt" "refcnt (bufs s b) \<noteq> 0"
    "refcnt (bufs s' b) = refcnt (bufs s b) + 1"
proof -
  note r = bread_Inr [OF assms(1)]
  from assms(2) obtain h where h: "cache_lookup s d bno = Some h" "valid (bufs s h)"
    "refcnt (bufs s h) \<noteq> 0" "data (bufs s h) = dt"
    by (auto simp: pinned_def)
  from r(16) [OF h(1)] have e: "b = h" "refcnt (bufs s' b) = refcnt (bufs s b) + 1"
    "data (bufs s' b) = (if valid (bufs s b) then data (bufs s b) else disk s (d, bno))"
    by auto
  with h show "cache_lookup s d bno = Some b" "data (bufs s' b) = dt" "refcnt (bufs s b) \<noteq> 0"
    "refcnt (bufs s' b) = refcnt (bufs s b) + 1"
    by simp_all
qed

lemma wl_body_summary:
  assumes 1: "bread d lb s = Inr (to, s1)"
    and 2: "bread d hb s1 = Inr (from, s2)"
    and 3: "bwrite to (s2\<lparr>bufs := (bufs s2)(to := (bufs s2 to)\<lparr>data := data (bufs s2 from)\<rparr>)\<rparr>) = Inr s4"
    and 4: "brelse from s4 = Inr s5"
    and 5: "brelse to s5 = Inr s6"
    and pin: "pinned s (d, hb) dt"
    and ne: "hb \<noteq> lb"
  shows "writes s6 = writes s @ [(d, lb, dt)]"
    "disk s6 = (disk s)((d, lb) := dt)"
    "lru s6 = lru s \<or> lru s6 = to # remove1 to (lru s)" "to \<in> set (lru s)"
    "ident s6 to = (d, lb)" "valid (bufs s6 to)" "data (bufs s6 to) = dt"
    "\<And>j. j \<noteq> to \<Longrightarrow> ident s6 j = ident s1 j \<and> valid (bufs s6 j) = valid (bufs s1 j)
        \<and> data (bufs s6 j) = data (bufs s1 j) \<and> refcnt (bufs s6 j) = refcnt (bufs s1 j)"
proof -
  note r1 = bread_Inr [OF 1] and r2 = bread_Inr [OF 2]
  have pin1: "pinned s1 (d, hb) dt"
    using bread_pinned_other [OF 1 pin] ne by simp
  note p2 = bread_pinned_same [OF 2 pin1]
  have ft: "from \<noteq> to"
    using r1(14) r2(4) by auto
  let ?s3 = "s2\<lparr>bufs := (bufs s2)(to := (bufs s2 to)\<lparr>data := data (bufs s2 from)\<rparr>)\<rparr>"
  note r3 = bwrite_Inr [OF 3]
  note r4 = brelse_Inr [OF 4]
  note r5 = brelse_Inr [OF 5]
  have t2: "bufs s2 to = bufs s1 to"
    using r2(10) ft by simp
  show "writes s6 = writes s @ [(d, lb, dt)]"
    using r5(6) r4(6) r3(5) r2(7) r1(7) t2 r1(11,12) p2(2) by simp
  show "disk s6 = (disk s)((d, lb) := dt)"
    using r5(7) r4(7) r3(6) r2(6) r1(6) t2 r1(11,12) p2(2) by simp
  have f4: "refcnt (bufs s4 from) = refcnt (bufs s1 from) + 1"
    using r3(10) ft p2(4) by simp
  have "refcnt (bufs s4 from) \<noteq> 1"
    using f4 p2(3) by simp
  then have l5: "lru s5 = lru s"
    using r4(8) r3(7) r2(5) r1(5) by simp
  with r5(8) show "lru s6 = lru s \<or> lru s6 = to # remove1 to (lru s)"
    by auto
  show "to \<in> set (lru s)" by (rule r1(15))
  have b6: "bufs s6 to = (bufs s1 to)\<lparr>data := dt,
      lock := \<lparr>lk = unlocked (lk (lock (bufs s5 to))), slocked = 0, spid = 0\<rparr>,
      refcnt := refcnt (bufs s1 to) - 1\<rparr>"
    using r5(11) r4(11) r3(10) ft t2 p2(2) by simp
  show "ident s6 to = (d, lb)" "valid (bufs s6 to)" "data (bufs s6 to) = dt"
    using b6 r1(11,12,13) by (simp_all add: ident_def)
  show "ident s6 j = ident s1 j \<and> valid (bufs s6 j) = valid (bufs s1 j)
        \<and> data (bufs s6 j) = data (bufs s1 j) \<and> refcnt (bufs s6 j) = refcnt (bufs s1 j)"
    if "j \<noteq> to" for j
  proof (cases "j = from")
    case True
    have "bufs s6 from = (bufs s2 from)\<lparr>lock := \<lparr>lk = unlocked (lk (lock (bufs s4 from))), slocked = 0, spid = 0\<rparr>,
        refcnt := refcnt (bufs s2 from) - 1\<rparr>"
      using r5(11) r4(11) r3(10) ft by simp
    moreover have "ident s2 from = ident s1 from" "valid (bufs s1 from)" "data (bufs s1 from) = dt"
      using cache_lookup_Some [OF p2(1)] bread_ident(1) [OF 2] pin1 p2(1)
      by (auto simp: pinned_def)
    ultimately show ?thesis
      using True p2(2,4) r2(13) by (simp add: ident_def)
  next
    case False
    with that have "bufs s6 j = bufs s1 j"
      using r5(11) r4(11) r3(10) r2(10) by simp
    then show ?thesis by (simp add: ident_def)
  qed
qed

lemma set_move_front: "b \<in> set xs \<Longrightarrow> set (b # remove1 b xs) = set xs"
  by (induction xs) auto

lemma lru_set_same:
  assumes "b \<in> set xs" "ys = xs \<or> ys = b # remove1 b xs"
  shows "set ys = set xs"
proof (cases "ys = xs")
  case True
  then show ?thesis by simp
next
  case False
  with assms(2) have "ys = b # remove1 b xs" by simp
  then show ?thesis by (simp only: set_move_front [OF assms(1)])
qed

lemma find_remove1: "\<not> P b \<Longrightarrow> find P (remove1 b xs) = find P xs"
  by (induction xs) auto

lemma ident_lookup:
  "cache_lookup s d bno = find (\<lambda>c. ident s c = (d, bno)) (lru s)"
  by (simp add: cache_lookup_def ident_def)

text \<open>
  What the log needs of a state \<open>s'\<close> reached from \<open>s\<close> by cache calls that gave
  buffer \<open>b\<close> the content \<open>dt\<close> and wrote it, and left all other buffers alone.
\<close>

lemma step_pinned:
  assumes p: "pinned s Y dy" and nb: "ident s b \<noteq> Y" "ident s' b \<noteq> Y"
    and l: "lru s' = lru s \<or> lru s' = b # remove1 b (lru s)"
    and o: "\<And>j. j \<noteq> b \<Longrightarrow> ident s' j = ident s j \<and> valid (bufs s' j) = valid (bufs s j)
        \<and> data (bufs s' j) = data (bufs s j) \<and> refcnt (bufs s' j) = refcnt (bufs s j)"
  shows "pinned s' Y dy"
proof -
  from p obtain h where h: "cache_lookup s (fst Y) (snd Y) = Some h" "valid (bufs s h)"
    "refcnt (bufs s h) \<noteq> 0" "data (bufs s h) = dy"
    by (auto simp: pinned_def)
  from cache_lookup_Some [OF h(1)] nb have hb: "h \<noteq> b" by auto
  have P: "(ident s' c = Y) = (ident s c = Y)" for c
    using o [of c] nb by (cases "c = b") auto
  have "find (\<lambda>c. ident s' c = Y) (lru s') = find (\<lambda>c. ident s c = Y) (lru s)"
    using l nb(1) by (auto simp: P find_remove1)
  with h(1) have "cache_lookup s' (fst Y) (snd Y) = Some h"
    by (simp add: ident_lookup)
  with h(2-) o [OF hb] show ?thesis
    by (auto simp: pinned_def)
qed

lemma step_uniq:
  assumes u: "uniq s Y" and b: "b \<in> set (lru s)" and i: "ident s' b = ident s b"
    and l: "lru s' = lru s \<or> lru s' = b # remove1 b (lru s)"
    and o: "\<And>j. j \<noteq> b \<Longrightarrow> ident s' j = ident s j \<and> valid (bufs s' j) = valid (bufs s j)
        \<and> data (bufs s' j) = data (bufs s j) \<and> refcnt (bufs s' j) = refcnt (bufs s j)"
  shows "uniq s' Y"
proof -
  have s: "set (lru s') = set (lru s)"
    using b l by (rule lru_set_same)
  have "ident s' c = ident s c" for c
    using o [of c] i by (cases "c = b") auto
  with u s show ?thesis
    by (simp add: uniq_def)
qed

lemma step_holds_new:
  assumes u: "uniq s' (ident s' b)" and b: "b \<in> set (lru s')"
    and d: "disk s' (ident s' b) = dt" "data (bufs s' b) = dt"
  shows "holds s' (ident s' b) dt"
  using assms by (auto simp: holds_def uniq_def)

lemma step_holds_other:
  assumes h: "holds s Y dy" and nb: "ident s' b \<noteq> Y" and b: "b \<in> set (lru s)"
    and l: "lru s' = lru s \<or> lru s' = b # remove1 b (lru s)"
    and d: "disk s' Y = disk s Y"
    and o: "\<And>j. j \<noteq> b \<Longrightarrow> ident s' j = ident s j \<and> valid (bufs s' j) = valid (bufs s j)
        \<and> data (bufs s' j) = data (bufs s j) \<and> refcnt (bufs s' j) = refcnt (bufs s j)"
  shows "holds s' Y dy"
proof -
  have s: "set (lru s') = set (lru s)"
    using b l by (rule lru_set_same)
  have "data (bufs s' c) = dy" if "c \<in> set (lru s')" "ident s' c = Y" "valid (bufs s' c)" for c
  proof -
    from that nb have "c \<noteq> b" by auto
    with o [of c] that s h show ?thesis by (auto simp: holds_def)
  qed
  with h d show ?thesis by (simp add: holds_def)
qed

lemma wl_body:
  assumes 1: "bread d lb s = Inr (to, s1)"
    and 2: "bread d hb s1 = Inr (from, s2)"
    and 3: "bwrite to (s2\<lparr>bufs := (bufs s2)(to := (bufs s2 to)\<lparr>data := data (bufs s2 from)\<rparr>)\<rparr>) = Inr s4"
    and 4: "brelse from s4 = Inr s5"
    and 5: "brelse to s5 = Inr s6"
    and pin: "pinned s (d, hb) dt"
    and ne: "hb \<noteq> lb"
  shows "writes s6 = writes s @ [(d, lb, dt)]"
    "set (lru s6) = set (lru s)"
    "\<And>Y dy. pinned s Y dy \<Longrightarrow> Y \<noteq> (d, lb) \<Longrightarrow> pinned s6 Y dy"
    "\<And>Y. uniq s Y \<Longrightarrow> uniq s6 Y"
    "uniq s (d, lb) \<Longrightarrow> holds s6 (d, lb) dt"
    "\<And>Y dy. holds s Y dy \<Longrightarrow> Y \<noteq> (d, lb) \<Longrightarrow> holds s6 Y dy"
proof -
  note m = wl_body_summary [OF 1 2 3 4 5 pin ne]
  note r1 = bread_Inr [OF 1] and i1 = bread_ident [OF 1]
  have l: "lru s6 = lru s1 \<or> lru s6 = to # remove1 to (lru s1)"
    using m(3) r1(5) by simp
  have t1: "to \<in> set (lru s1)"
    using m(4) r1(5) by simp
  show "writes s6 = writes s @ [(d, lb, dt)]" by (rule m(1))
  show s: "set (lru s6) = set (lru s)"
    using m(4) m(3) by (rule lru_set_same)
  show "pinned s6 Y dy" if "pinned s Y dy" "Y \<noteq> (d, lb)" for Y dy
  proof (rule step_pinned [where s = s1 and b = to])
    show "pinned s1 Y dy" using bread_pinned_other [OF 1 that] .
    show "ident s1 to \<noteq> Y" using i1(1) that(2) by simp
    show "ident s6 to \<noteq> Y" using m(5) that(2) by simp
    show "lru s6 = lru s1 \<or> lru s6 = to # remove1 to (lru s1)" by (rule l)
    show "\<And>j. j \<noteq> to \<Longrightarrow> ident s6 j = ident s1 j \<and> valid (bufs s6 j) = valid (bufs s1 j)
        \<and> data (bufs s6 j) = data (bufs s1 j) \<and> refcnt (bufs s6 j) = refcnt (bufs s1 j)"
      by (rule m(8))
  qed
  show u: "uniq s6 Y" if "uniq s Y" for Y
  proof (rule step_uniq [where s = s1 and b = to])
    show "uniq s1 Y" using bread_uniq [OF 1 that] .
    show "to \<in> set (lru s1)" by (rule t1)
    show "ident s6 to = ident s1 to" using m(5) i1(1) by simp
    show "lru s6 = lru s1 \<or> lru s6 = to # remove1 to (lru s1)" by (rule l)
    show "\<And>j. j \<noteq> to \<Longrightarrow> ident s6 j = ident s1 j \<and> valid (bufs s6 j) = valid (bufs s1 j)
        \<and> data (bufs s6 j) = data (bufs s1 j) \<and> refcnt (bufs s6 j) = refcnt (bufs s1 j)"
      by (rule m(8))
  qed
  show "holds s6 (d, lb) dt" if "uniq s (d, lb)"
  proof -
    have "holds s6 (ident s6 to) dt"
    proof (rule step_holds_new)
      show "uniq s6 (ident s6 to)" using u [OF that] m(5) by simp
      show "to \<in> set (lru s6)" using s m(4) by simp
      show "disk s6 (ident s6 to) = dt" using m(2,5) by simp
      show "data (bufs s6 to) = dt" by (rule m(7))
    qed
    with m(5) show ?thesis by simp
  qed
  show "holds s6 Y dy" if "holds s Y dy" "Y \<noteq> (d, lb)" for Y dy
  proof (rule step_holds_other [where s = s1 and b = to])
    show "holds s1 Y dy" using bread_holds [OF 1 that(1)] .
    show "ident s6 to \<noteq> Y" using m(5) that(2) by simp
    show "to \<in> set (lru s1)" by (rule t1)
    show "lru s6 = lru s1 \<or> lru s6 = to # remove1 to (lru s1)" by (rule l)
    show "disk s6 Y = disk s1 Y" using m(2) r1(6) that(2) by simp
    show "\<And>j. j \<noteq> to \<Longrightarrow> ident s6 j = ident s1 j \<and> valid (bufs s6 j) = valid (bufs s1 j)
        \<and> data (bufs s6 j) = data (bufs s1 j) \<and> refcnt (bufs s6 j) = refcnt (bufs s1 j)"
      by (rule m(8))
  qed
qed

lemma write_log_loop_step:
  assumes "write_log_loop lg tail s = Inr s'" "tail < lh_n lg"
  obtains to s1 "from" s2 s4 s5 s6 where
    "bread (word_of_int (ldev lg)) (word_of_int (lstart lg + tail + 1)) s = Inr (to, s1)"
    "bread (word_of_int (ldev lg)) (lh_block lg (nat tail)) s1 = Inr (from, s2)"
    "bwrite to (s2\<lparr>bufs := (bufs s2)(to := (bufs s2 to)\<lparr>data := data (bufs s2 from)\<rparr>)\<rparr>) = Inr s4"
    "brelse from s4 = Inr s5" "brelse to s5 = Inr s6"
    "write_log_loop lg (tail + 1) s6 = Inr s'"
  using assms
  by (subst (asm) write_log_loop.simps) (auto simp: Let_def split: sum.splits prod.splits)

lemma upt_nat_step: "0 \<le> tail \<Longrightarrow> tail < n \<Longrightarrow> [nat tail..<nat n] = nat tail # [nat (tail + 1)..<nat n]"
  by (simp add: upt_conv_Cons nat_add_distrib)

lemma write_log_loop_writes:
  assumes run: "write_log_loop lg tail s = Inr s'" and t0: "0 \<le> tail"
    and pins: "\<forall>t. tail \<le> t \<and> t < lh_n lg \<longrightarrow>
        pinned s (word_of_int (ldev lg), lh_block lg (nat t)) (Dt (nat t))"
    and dis: "\<forall>t t'. 0 \<le> t \<and> t < lh_n lg \<and> 0 \<le> t' \<and> t' < lh_n lg \<longrightarrow>
        lh_block lg (nat t) \<noteq> word_of_int (lstart lg + t' + 1)"
    and inj: "\<forall>t t'. 0 \<le> t \<and> t < t' \<and> t' < lh_n lg \<longrightarrow>
        word_of_int (lstart lg + t + 1) \<noteq> (word_of_int (lstart lg + t' + 1) :: 32 word)"
    and un: "\<forall>t. tail \<le> t \<and> t < lh_n lg \<longrightarrow>
        uniq s (word_of_int (ldev lg), word_of_int (lstart lg + t + 1))"
  shows "writes s' = writes s @
           map (\<lambda>t. (word_of_int (ldev lg), word_of_int (lstart lg + int t + 1), Dt t))
             [nat tail..<nat (lh_n lg)]
    \<and> set (lru s') = set (lru s)
    \<and> (\<forall>t. tail \<le> t \<and> t < lh_n lg \<longrightarrow>
          holds s' (word_of_int (ldev lg), word_of_int (lstart lg + t + 1)) (Dt (nat t)))
    \<and> (\<forall>Y. uniq s Y \<longrightarrow> uniq s' Y)
    \<and> (\<forall>Y dy. holds s Y dy \<and> (\<forall>t. tail \<le> t \<and> t < lh_n lg \<longrightarrow>
            Y \<noteq> (word_of_int (ldev lg), word_of_int (lstart lg + t + 1))) \<longrightarrow> holds s' Y dy)"
  using run t0 pins un
proof (induction "nat (lh_n lg - tail)" arbitrary: tail s)
  case 0
  then have "\<not> tail < lh_n lg" by simp
  with 0(2) have "s' = s" by (subst (asm) write_log_loop.simps) simp
  with \<open>\<not> tail < lh_n lg\<close> show ?case by auto
next
  case (Suc k)
  let ?D = "word_of_int (ldev lg) :: 32 word"
  let ?L = "\<lambda>t. word_of_int (lstart lg + t + 1) :: 32 word"
  from Suc(2) have lt: "tail < lh_n lg" by simp
  from write_log_loop_step [OF Suc(3) lt] obtain to s1 "from" s2 s4 s5 s6 where
    st: "bread ?D (?L tail) s = Inr (to, s1)"
    "bread ?D (lh_block lg (nat tail)) s1 = Inr (from, s2)"
    "bwrite to (s2\<lparr>bufs := (bufs s2)(to := (bufs s2 to)\<lparr>data := data (bufs s2 from)\<rparr>)\<rparr>) = Inr s4"
    "brelse from s4 = Inr s5" "brelse to s5 = Inr s6"
    and rest: "write_log_loop lg (tail + 1) s6 = Inr s'"
    by blast
  have pin: "pinned s (?D, lh_block lg (nat tail)) (Dt (nat tail))"
    using Suc(5) lt by simp
  have ne: "lh_block lg (nat tail) \<noteq> ?L tail"
    using dis Suc(4) lt by simp
  note b = wl_body [OF st pin ne]
  have k: "k = nat (lh_n lg - (tail + 1))" using Suc(2) by simp
  have t1: "0 \<le> tail + 1" using Suc(4) by simp
  have pins6: "\<forall>t. tail + 1 \<le> t \<and> t < lh_n lg \<longrightarrow> pinned s6 (?D, lh_block lg (nat t)) (Dt (nat t))"
  proof (intro allI impI)
    fix t assume t: "tail + 1 \<le> t \<and> t < lh_n lg"
    with Suc(5) have "pinned s (?D, lh_block lg (nat t)) (Dt (nat t))" by simp
    moreover have "(?D, lh_block lg (nat t)) \<noteq> (?D, ?L tail)"
      using dis t Suc(4) lt by simp
    ultimately show "pinned s6 (?D, lh_block lg (nat t)) (Dt (nat t))" by (rule b(3))
  qed
  have un6: "\<forall>t. tail + 1 \<le> t \<and> t < lh_n lg \<longrightarrow> uniq s6 (?D, ?L t)"
    using Suc(6) b(4) by simp
  note ih = Suc(1) [OF k rest t1 pins6 un6]
  have w: "writes s' = writes s @ map (\<lambda>t. (?D, ?L (int t), Dt t)) [nat tail..<nat (lh_n lg)]"
    using ih b(1) Suc(4) lt by (simp add: upt_nat_step)
  have l: "set (lru s') = set (lru s)"
    using ih b(2) by simp
  have u: "\<forall>Y. uniq s Y \<longrightarrow> uniq s' Y"
    using ih b(4) by blast
  have ho: "holds s' Y dy" if "holds s Y dy"
    "\<forall>t. tail \<le> t \<and> t < lh_n lg \<longrightarrow> Y \<noteq> (?D, ?L t)" for Y dy
  proof -
    from that(2) lt have "Y \<noteq> (?D, ?L tail)" by simp
    with that(1) have "holds s6 Y dy" by (rule b(6))
    moreover from that(2) have "\<forall>t. tail + 1 \<le> t \<and> t < lh_n lg \<longrightarrow> Y \<noteq> (?D, ?L t)" by simp
    ultimately show ?thesis using ih by blast
  qed
  have hn: "holds s' (?D, ?L t) (Dt (nat t))" if t: "tail \<le> t \<and> t < lh_n lg" for t
  proof (cases "t = tail")
    case False
    with t ih show ?thesis by simp
  next
    case True
    have "uniq s (?D, ?L tail)" using Suc(6) lt by simp
    then have h6: "holds s6 (?D, ?L tail) (Dt (nat tail))" by (rule b(5))
    have "\<forall>t'. tail + 1 \<le> t' \<and> t' < lh_n lg \<longrightarrow> (?D, ?L tail) \<noteq> (?D, ?L t')"
      using inj Suc(4) by simp
    with h6 ih True show ?thesis by blast
  qed
  from w l hn u ho show ?case by blast
qed

lemma gen_uniq:
  assumes "uniq s Y" "\<And>c. ident s' c = ident s c" "set (lru s') = set (lru s)"
  shows "uniq s' Y"
  using assms by (simp add: uniq_def)

lemma gen_holds:
  assumes "holds s Y dy" "set (lru s') = set (lru s)" "disk s' Y = disk s Y"
    "\<And>c. ident s' c = Y \<Longrightarrow> ident s c = Y \<and> valid (bufs s' c) = valid (bufs s c)
        \<and> data (bufs s' c) = data (bufs s c)"
  shows "holds s' Y dy"
  using assms by (auto simp: holds_def)

lemma brelse_lru_set:
  assumes "brelse b s = Inr s'" "b \<in> set (lru s)"
  shows "set (lru s') = set (lru s)"
proof -
  from brelse_Inr(8) [OF assms(1)] have "lru s' = lru s \<or> lru s' = b # remove1 b (lru s)"
    by auto
  with assms(2) show ?thesis by (rule lru_set_same)
qed

lemma hdr_fold:
  "fold (\<lambda>i hb. hb(Suc i := f i)) [0..<n] h w = (if 1 \<le> w \<and> w \<le> n then f (w - 1) else h w)"
  by (induction n) (auto simp: le_Suc_eq)

lemma write_head_steps:
  assumes "write_head lg s = Inr s'"
  obtains b s1 s3 where
    "bread (word_of_int (ldev lg)) (word_of_int (lstart lg)) s = Inr (b, s1)"
    "bwrite b (s1\<lparr>bufs := (bufs s1)(b := (bufs s1 b)\<lparr>data :=
        fold (\<lambda>i hb. hb(1 + i := lh_block lg i)) [0..<nat (lh_n lg)]
          ((data (bufs s1 b))(0 := word_of_int (lh_n lg)))\<rparr>)\<rparr>) = Inr s3"
    "brelse b s3 = Inr s'"
  using assms
  by (auto simp: write_head_def Let_def split: sum.splits prod.splits)

lemma write_head_writes:
  assumes wh: "write_head lg s = Inr s'"
  shows "\<exists>H. writes s' = writes s @ [(word_of_int (ldev lg), word_of_int (lstart lg), H)]
          \<and> H 0 = word_of_int (lh_n lg) \<and> (\<forall>i < nat (lh_n lg). H (1 + i) = lh_block lg i)"
    "set (lru s') = set (lru s)"
    "\<And>Y. uniq s Y \<Longrightarrow> uniq s' Y"
    "\<And>Y dy. holds s Y dy \<Longrightarrow> Y \<noteq> (word_of_int (ldev lg), word_of_int (lstart lg)) \<Longrightarrow> holds s' Y dy"
proof -
  let ?D = "word_of_int (ldev lg) :: 32 word" and ?h = "word_of_int (lstart lg) :: 32 word"
  from write_head_steps [OF wh] obtain b s1 s3 where
    1: "bread ?D ?h s = Inr (b, s1)"
    and 2: "bwrite b (s1\<lparr>bufs := (bufs s1)(b := (bufs s1 b)\<lparr>data :=
        fold (\<lambda>i hb. hb(1 + i := lh_block lg i)) [0..<nat (lh_n lg)]
          ((data (bufs s1 b))(0 := word_of_int (lh_n lg)))\<rparr>)\<rparr>) = Inr s3"
    and 3: "brelse b s3 = Inr s'"
    by blast
  let ?H = "fold (\<lambda>i hb. hb(1 + i := lh_block lg i)) [0..<nat (lh_n lg)]
          ((data (bufs s1 b))(0 := word_of_int (lh_n lg)))"
  note r1 = bread_Inr [OF 1] and i1 = bread_ident [OF 1]
  note r2 = bwrite_Inr [OF 2] and r3 = brelse_Inr [OF 3]
  have w: "writes s' = writes s @ [(?D, ?h, ?H)]"
    using r3(6) r2(5) r1(7,11,12) by simp
  have H: "?H 0 = word_of_int (lh_n lg)" "\<forall>i < nat (lh_n lg). ?H (1 + i) = lh_block lg i"
    by (simp_all add: hdr_fold)
  from w H show "\<exists>H. writes s' = writes s @ [(?D, ?h, H)]
          \<and> H 0 = word_of_int (lh_n lg) \<and> (\<forall>i < nat (lh_n lg). H (1 + i) = lh_block lg i)"
    by blast
  have l3: "lru s3 = lru s1" using r2(7) by simp
  show l: "set (lru s') = set (lru s)"
    using brelse_lru_set [OF 3] r1(15) l3 r1(5) by simp
  have l1: "set (lru s') = set (lru s1)" using l r1(5) by simp
  have id: "ident s' c = ident s1 c" for c
    using r3(11) r2(10) by (simp add: ident_def)
  have dv: "valid (bufs s' c) = valid (bufs s1 c) \<and> data (bufs s' c) = data (bufs s1 c)" if "c \<noteq> b" for c
    using r3(11) r2(10) that by simp
  show "uniq s' Y" if "uniq s Y" for Y
    using bread_uniq [OF 1 that] id l1 by (rule gen_uniq)
  show "holds s' Y dy" if "holds s Y dy" "Y \<noteq> (?D, ?h)" for Y dy
  proof (rule gen_holds [where s = s1])
    show "holds s1 Y dy" using bread_holds [OF 1 that(1)] .
    show "set (lru s') = set (lru s1)" by (rule l1)
    show "disk s' Y = disk s1 Y" using r3(7) r2(6) r1(11,12) that(2) by simp
    show "ident s1 c = Y \<and> valid (bufs s' c) = valid (bufs s1 c) \<and> data (bufs s' c) = data (bufs s1 c)"
      if "ident s' c = Y" for c
    proof -
      from that id have "ident s1 c = Y" by simp
      moreover with i1(1) \<open>Y \<noteq> (?D, ?h)\<close> have "c \<noteq> b" by auto
      ultimately show ?thesis using dv by simp
    qed
  qed
qed

lemma it_body:
  assumes 1: "bread d lb s = Inr (lbuf, s1)"
    and 2: "bread d hb s1 = Inr (dbuf, s2)"
    and 3: "bwrite dbuf (s2\<lparr>bufs := (bufs s2)(dbuf := (bufs s2 dbuf)\<lparr>data := data (bufs s2 lbuf)\<rparr>)\<rparr>) = Inr s4"
    and 4: "(if \<not> recovering then bunpin dbuf s4 else Inr s4) = Inr s4'"
    and 5: "brelse lbuf s4' = Inr s5"
    and 6: "brelse dbuf s5 = Inr s6"
    and h: "holds s (d, lb) dt"
  shows "writes s6 = writes s @ [(d, hb, dt)]"
    "set (lru s6) = set (lru s)"
    "\<And>Y. uniq s Y \<Longrightarrow> uniq s6 Y"
    "\<And>Y dy. holds s Y dy \<Longrightarrow> Y \<noteq> (d, hb) \<Longrightarrow> holds s6 Y dy"
proof -
  note r1 = bread_Inr [OF 1] and r2 = bread_Inr [OF 2] and i2 = bread_ident [OF 2]
  note r3 = bwrite_Inr [OF 3] and r5 = brelse_Inr [OF 5] and r6 = brelse_Inr [OF 6]
  have dl: "dbuf \<noteq> lbuf"
    using r1(14) r2(4) by auto
  have d1: "data (bufs s1 lbuf) = dt"
    using bread_data [OF 1 h] .
  have l2: "bufs s2 lbuf = bufs s1 lbuf"
    using r2(10) dl by simp
  have s4': "writes s4' = writes s4 \<and> disk s4' = disk s4 \<and> lru s4' = lru s4
      \<and> (\<forall>c. ident s4' c = ident s4 c \<and> valid (bufs s4' c) = valid (bufs s4 c)
            \<and> data (bufs s4' c) = data (bufs s4 c))"
    using 4 by (cases recovering) (auto simp: bunpin_iff ident_def)
  show "writes s6 = writes s @ [(d, hb, dt)]"
    using r6(6) r5(6) s4' r3(5) r2(7,11,12) r1(7) l2 d1 dl by simp
  have dk: "disk s6 = (disk s2)((d, hb) := dt)"
    using r6(7) r5(7) s4' r3(6) r2(11,12) l2 d1 dl by simp
  have lb5: "lbuf \<in> set (lru s4')"
    using s4' r3(7) r2(5) r1(5,15) by simp
  have l5: "set (lru s5) = set (lru s2)"
    using brelse_lru_set [OF 5 lb5] s4' r3(7) by simp
  have "dbuf \<in> set (lru s5)"
    using l5 r2(5,15) by simp
  from brelse_lru_set [OF 6 this] l5 have l6: "set (lru s6) = set (lru s2)"
    by simp
  then show "set (lru s6) = set (lru s)"
    using r2(5) r1(5) by simp
  have id: "ident s6 c = ident s2 c" for c
    using r6(11) r5(11) s4' r3(10) by (simp add: ident_def)
  have dv: "valid (bufs s6 c) = valid (bufs s2 c) \<and> data (bufs s6 c) = data (bufs s2 c)"
    if "c \<noteq> dbuf" for c
  proof -
    have "valid (bufs s6 c) = valid (bufs s4' c) \<and> data (bufs s6 c) = data (bufs s4' c)"
      using r6(11) r5(11) by simp
    moreover have "valid (bufs s4 c) = valid (bufs s2 c) \<and> data (bufs s4 c) = data (bufs s2 c)"
      using r3(10) that by simp
    ultimately show ?thesis using s4' by simp
  qed
  show "uniq s6 Y" if "uniq s Y" for Y
    using bread_uniq [OF 2 bread_uniq [OF 1 that]] id l6 by (rule gen_uniq)
  show "holds s6 Y dy" if "holds s Y dy" "Y \<noteq> (d, hb)" for Y dy
  proof (rule gen_holds [where s = s2])
    show "holds s2 Y dy" using bread_holds [OF 2 bread_holds [OF 1 that(1)]] .
    show "set (lru s6) = set (lru s2)" by (rule l6)
    show "disk s6 Y = disk s2 Y" using dk that(2) by simp
    show "ident s2 c = Y \<and> valid (bufs s6 c) = valid (bufs s2 c) \<and> data (bufs s6 c) = data (bufs s2 c)"
      if "ident s6 c = Y" for c
    proof -
      from that id have "ident s2 c = Y" by simp
      moreover with i2(1) \<open>Y \<noteq> (d, hb)\<close> have "c \<noteq> dbuf" by auto
      ultimately show ?thesis using dv by simp
    qed
  qed
qed

lemma install_trans_loop_step:
  assumes "install_trans_loop recovering lg tail s = Inr s'" "tail < lh_n lg"
  obtains lbuf s1 dbuf s2 s4 s4' s5 s6 where
    "bread (word_of_int (ldev lg)) (word_of_int (lstart lg + tail + 1)) s = Inr (lbuf, s1)"
    "bread (word_of_int (ldev lg)) (lh_block lg (nat tail)) s1 = Inr (dbuf, s2)"
    "bwrite dbuf (s2\<lparr>bufs := (bufs s2)(dbuf := (bufs s2 dbuf)\<lparr>data := data (bufs s2 lbuf)\<rparr>)\<rparr>) = Inr s4"
    "(if \<not> recovering then bunpin dbuf s4 else Inr s4) = Inr s4'"
    "brelse lbuf s4' = Inr s5" "brelse dbuf s5 = Inr s6"
    "install_trans_loop recovering lg (tail + 1) s6 = Inr s'"
  using assms
  by (subst (asm) install_trans_loop.simps) (auto simp: Let_def split: sum.splits prod.splits if_splits)

lemma install_trans_loop_writes:
  assumes run: "install_trans_loop recovering lg tail s = Inr s'" and t0: "0 \<le> tail"
    and hs: "\<forall>t. tail \<le> t \<and> t < lh_n lg \<longrightarrow>
        holds s (word_of_int (ldev lg), word_of_int (lstart lg + t + 1)) (Dt (nat t))"
    and dis: "\<forall>t t'. 0 \<le> t \<and> t < lh_n lg \<and> 0 \<le> t' \<and> t' < lh_n lg \<longrightarrow>
        lh_block lg (nat t) \<noteq> word_of_int (lstart lg + t' + 1)"
  shows "writes s' = writes s @
           map (\<lambda>t. (word_of_int (ldev lg), lh_block lg t, Dt t)) [nat tail..<nat (lh_n lg)]"
  using run t0 hs
proof (induction "nat (lh_n lg - tail)" arbitrary: tail s)
  case 0
  then have "\<not> tail < lh_n lg" by simp
  with 0(2) have "s' = s" by (subst (asm) install_trans_loop.simps) simp
  with \<open>\<not> tail < lh_n lg\<close> show ?case by auto
next
  case (Suc k)
  let ?D = "word_of_int (ldev lg) :: 32 word"
  let ?L = "\<lambda>t. word_of_int (lstart lg + t + 1) :: 32 word"
  from Suc(2) have lt: "tail < lh_n lg" by simp
  from install_trans_loop_step [OF Suc(3) lt] obtain lbuf s1 dbuf s2 s4 s4' s5 s6 where
    st: "bread ?D (?L tail) s = Inr (lbuf, s1)"
    "bread ?D (lh_block lg (nat tail)) s1 = Inr (dbuf, s2)"
    "bwrite dbuf (s2\<lparr>bufs := (bufs s2)(dbuf := (bufs s2 dbuf)\<lparr>data := data (bufs s2 lbuf)\<rparr>)\<rparr>) = Inr s4"
    "(if \<not> recovering then bunpin dbuf s4 else Inr s4) = Inr s4'"
    "brelse lbuf s4' = Inr s5" "brelse dbuf s5 = Inr s6"
    and rest: "install_trans_loop recovering lg (tail + 1) s6 = Inr s'"
    by blast
  have h: "holds s (?D, ?L tail) (Dt (nat tail))"
    using Suc(5) lt by simp
  note b = it_body [OF st h]
  have k: "k = nat (lh_n lg - (tail + 1))" using Suc(2) by simp
  have t1: "0 \<le> tail + 1" using Suc(4) by simp
  have hs6: "\<forall>t. tail + 1 \<le> t \<and> t < lh_n lg \<longrightarrow> holds s6 (?D, ?L t) (Dt (nat t))"
  proof (intro allI impI)
    fix t assume t: "tail + 1 \<le> t \<and> t < lh_n lg"
    with Suc(5) have "holds s (?D, ?L t) (Dt (nat t))" by simp
    moreover have "lh_block lg (nat tail) \<noteq> ?L t"
      using dis t Suc(4) lt by simp
    then have "(?D, ?L t) \<noteq> (?D, lh_block lg (nat tail))"
      by auto
    ultimately show "holds s6 (?D, ?L t) (Dt (nat t))" by (rule b(4))
  qed
  note ih = Suc(1) [OF k rest t1 hs6]
  show ?case
    using ih b(1) Suc(4) lt by (simp add: upt_nat_step)
qed

lemma word_of_int_neq:
  "0 \<le> a \<Longrightarrow> a < 2 ^ 32 \<Longrightarrow> 0 \<le> b \<Longrightarrow> b < 2 ^ 32 \<Longrightarrow> a \<noteq> b \<Longrightarrow>
     (word_of_int a :: 32 word) \<noteq> word_of_int b"
proof
  assume a: "0 \<le> a" "a < 2 ^ 32" "0 \<le> b" "b < 2 ^ 32" "a \<noteq> b"
    and e: "(word_of_int a :: 32 word) = word_of_int b"
  then have "uint (word_of_int a :: 32 word) = uint (word_of_int b :: 32 word)" by simp
  then have "a mod 2 ^ 32 = b mod 2 ^ 32" by (simp add: uint_word_of_int take_bit_eq_mod)
  with a show False by simp
qed

lemma commit_steps:
  assumes c: "commit lg s = Inr (lg', s')" and n: "0 < lh_n lg"
  obtains sa sb sc where
    "write_log_loop lg 0 s = Inr sa" "write_head lg sa = Inr sb"
    "install_trans_loop False lg 0 sb = Inr sc" "write_head (lg\<lparr>lh_n := 0\<rparr>) sc = Inr s'"
    "lg' = lg\<lparr>lh_n := 0\<rparr>"
proof (cases "write_log_loop lg 0 s")
  case (Inl e)
  with c n show ?thesis by (simp add: commit_def write_log_def)
next
  case a: (Inr sa)
  show ?thesis
  proof (cases "write_head lg sa")
    case (Inl e)
    with c n a show ?thesis by (simp add: commit_def write_log_def)
  next
    case b: (Inr sb)
    show ?thesis
    proof (cases "install_trans_loop False lg 0 sb")
      case (Inl e)
      with c n a b show ?thesis by (simp add: commit_def write_log_def install_trans_def)
    next
      case cc: (Inr sc)
      show ?thesis
      proof (cases "write_head (lg\<lparr>lh_n := 0\<rparr>) sc")
        case (Inl e)
        with c n a b cc show ?thesis
          by (simp add: commit_def write_log_def install_trans_def)
      next
        case d: (Inr sd)
        with c n a b cc have "lg' = lg\<lparr>lh_n := 0\<rparr>" "sd = s'"
          by (simp_all add: commit_def write_log_def install_trans_def)
        with a b cc d that show ?thesis by simp
      qed
    qed
  qed
qed

text \<open>
  C1. Take a \<open>commit\<close> that returns, of a transaction with \<open>n > 0\<close> logged blocks,
  the log region within the 32-bit block numbers. Each logged block \<open>block[t]\<close> is
  cached with content \<open>Dt t\<close> in a valid buffer in use (what \<open>log_write\<close>'s pin
  ensures), no logged block lies in the log region, and no two buffers cache the
  same log block. Then the disk writes that \<open>commit\<close> adds are, in this order:
  the \<open>n\<close> log blocks \<open>start + t + 1\<close> with the contents \<open>Dt t\<close> (\<open>write_log\<close>); the
  header block \<open>start\<close> with \<open>n\<close> in word 0 and \<open>block[i]\<close> in word \<open>1 + i\<close>
  (\<open>write_head\<close>); the \<open>n\<close> home blocks \<open>block[t]\<close> with the contents \<open>Dt t\<close>
  (\<open>install_trans\<close>); the header block again, with 0 in word 0. The in-memory
  \<open>n\<close> is 0 afterwards.
\<close>

theorem commit_write_order:
  assumes c: "commit lg s = Inr (lg', s')" and n: "0 < lh_n lg"
    and st: "0 \<le> lstart lg" "lstart lg + lh_n lg < 2 ^ 32"
    and pins: "\<forall>t. 0 \<le> t \<and> t < lh_n lg \<longrightarrow>
        pinned s (word_of_int (ldev lg), lh_block lg (nat t)) (Dt (nat t))"
    and dis: "\<forall>t j. 0 \<le> t \<and> t < lh_n lg \<and> 0 \<le> j \<and> j \<le> lh_n lg \<longrightarrow>
        lh_block lg (nat t) \<noteq> word_of_int (lstart lg + j)"
    and un: "\<forall>t. 0 \<le> t \<and> t < lh_n lg \<longrightarrow>
        uniq s (word_of_int (ldev lg), word_of_int (lstart lg + t + 1))"
  shows "\<exists>H1 H2. writes s' = writes s
      @ map (\<lambda>t. (word_of_int (ldev lg), word_of_int (lstart lg + int t + 1), Dt t)) [0..<nat (lh_n lg)]
      @ [(word_of_int (ldev lg), word_of_int (lstart lg), H1)]
      @ map (\<lambda>t. (word_of_int (ldev lg), lh_block lg t, Dt t)) [0..<nat (lh_n lg)]
      @ [(word_of_int (ldev lg), word_of_int (lstart lg), H2)]
    \<and> H1 0 = word_of_int (lh_n lg) \<and> (\<forall>i < nat (lh_n lg). H1 (1 + i) = lh_block lg i)
    \<and> H2 0 = 0 \<and> lh_n lg' = 0"
proof -
  let ?D = "word_of_int (ldev lg) :: 32 word"
  let ?L = "\<lambda>t. word_of_int (lstart lg + t + 1) :: 32 word"
  let ?h = "word_of_int (lstart lg) :: 32 word"
  from commit_steps [OF c n] obtain sa sb sc where
    1: "write_log_loop lg 0 s = Inr sa" and 2: "write_head lg sa = Inr sb"
    and 3: "install_trans_loop False lg 0 sb = Inr sc"
    and 4: "write_head (lg\<lparr>lh_n := 0\<rparr>) sc = Inr s'" and lg': "lg' = lg\<lparr>lh_n := 0\<rparr>"
    by blast
  have dis1: "\<forall>t t'. 0 \<le> t \<and> t < lh_n lg \<and> 0 \<le> t' \<and> t' < lh_n lg \<longrightarrow>
        lh_block lg (nat t) \<noteq> ?L t'"
  proof (intro allI impI)
    fix t t' assume a: "0 \<le> t \<and> t < lh_n lg \<and> 0 \<le> t' \<and> t' < lh_n lg"
    then have "0 \<le> t \<and> t < lh_n lg \<and> 0 \<le> t' + 1 \<and> t' + 1 \<le> lh_n lg" by simp
    with dis have "lh_block lg (nat t) \<noteq> word_of_int (lstart lg + (t' + 1))" by blast
    moreover have "lstart lg + (t' + 1) = lstart lg + t' + 1" by simp
    ultimately show "lh_block lg (nat t) \<noteq> ?L t'" by simp
  qed
  have inj: "\<forall>t t'. 0 \<le> t \<and> t < t' \<and> t' < lh_n lg \<longrightarrow> ?L t \<noteq> ?L t'"
  proof (intro allI impI)
    fix t t' assume a: "0 \<le> t \<and> t < t' \<and> t' < lh_n lg"
    show "?L t \<noteq> ?L t'"
      by (rule word_of_int_neq) (use a st in simp_all)
  qed
  have hd: "?L t \<noteq> ?h" if "0 \<le> t" "t < lh_n lg" for t
    by (rule word_of_int_neq) (use that st in simp_all)
  from write_log_loop_writes [OF 1 _ pins dis1 inj un]
  have wa: "writes sa = writes s @ map (\<lambda>t. (?D, ?L (int t), Dt t)) [0..<nat (lh_n lg)]"
    and ha: "\<forall>t. 0 \<le> t \<and> t < lh_n lg \<longrightarrow> holds sa (?D, ?L t) (Dt (nat t))"
    by simp_all
  from write_head_writes(1) [OF 2] obtain H1 where
    wb: "writes sb = writes sa @ [(?D, ?h, H1)]"
    and H1: "H1 0 = word_of_int (lh_n lg)" "\<forall>i < nat (lh_n lg). H1 (1 + i) = lh_block lg i"
    by blast
  have hb: "\<forall>t. 0 \<le> t \<and> t < lh_n lg \<longrightarrow> holds sb (?D, ?L t) (Dt (nat t))"
  proof (intro allI impI)
    fix t assume t: "0 \<le> t \<and> t < lh_n lg"
    with ha have "holds sa (?D, ?L t) (Dt (nat t))" by simp
    moreover have "(?D, ?L t) \<noteq> (?D, ?h)" using hd t by simp
    ultimately show "holds sb (?D, ?L t) (Dt (nat t))" by (rule write_head_writes(4) [OF 2])
  qed
  from install_trans_loop_writes [OF 3 _ hb dis1]
  have wc: "writes sc = writes sb @ map (\<lambda>t. (?D, lh_block lg t, Dt t)) [0..<nat (lh_n lg)]"
    by simp
  from write_head_writes(1) [OF 4] obtain H2 where
    wd: "writes s' = writes sc @ [(?D, ?h, H2)]" and H2: "H2 0 = 0"
    by auto
  from wa wb wc wd H1 H2 lg' show ?thesis
    by auto
qed

lemmas commit_eval = commit_def write_log_def install_trans_def write_head_def bread_def bget_def
  bwrite_def brelse_def bunpin_def acquire_bcache_eq release_bcache_eq acquiresleep_buf_def
  releasesleep_buf_def holdingsleep_buf_eq acquiresleep_eq releasesleep_eq virtio_disk_rw_def Let_def
  write_log_loop.simps install_trans_loop.simps unlocked_def unnest_def holding_def pop_off_def
  push_off_def zero_buf_def

text \<open>
  A transaction that has modified blocks 100 and 200 of device 1, with the log at
  block 2: \<open>commit\<close> returns and writes blocks 3, 4, 2, 100, 200, 2, in this
  order; word 0 of each written block is shown.
\<close>

theorem commit_write_order_witness:
  "\<exists>lg' s'. commit tx_log tx_cache = Inr (lg', s')
     \<and> map (\<lambda>(d, b, dt). (d, b, dt 0)) (writes s')
         = [(1, 3, 7), (1, 4, 9), (1, 2, 2), (1, 100, 7), (1, 200, 9), (1, 2, 0)]
     \<and> lh_n lg' = 0"
proof -
  let ?Dt = "\<lambda>t::nat. (\<lambda>w::nat. if t = 0 then 7 else 9 :: 32 word)"
  have lgv: "lh_n tx_log = 2" "lstart tx_log = 2" "ldev tx_log = 1" "lh_block tx_log 0 = 100"
    "lh_block tx_log (Suc 0) = 200"
    by (simp_all add: tx_log_def)
  have "\<not> isl (commit tx_log tx_cache)"
    by (simp add: commit_eval tx_log_def tx_cache_def)
  then obtain lg' s' where c: "commit tx_log tx_cache = Inr (lg', s')"
    by (cases "commit tx_log tx_cache") auto
  have w0: "writes tx_cache = []"
    by (simp add: tx_cache_def)
  have two: "t = 0 \<or> t = 1" if "0 \<le> t \<and> t < lh_n tx_log" for t :: int
    using that lgv(1) by auto
  have p0: "pinned tx_cache (1, 100) (\<lambda>w. 7)" "pinned tx_cache (1, 200) (\<lambda>w. 9)"
    by (simp_all add: pinned_def cache_lookup_def tx_cache_def zero_buf_def)
  have pins: "\<forall>t. 0 \<le> t \<and> t < lh_n tx_log \<longrightarrow>
      pinned tx_cache (word_of_int (ldev tx_log), lh_block tx_log (nat t)) (?Dt (nat t))"
  proof (intro allI impI)
    fix t :: int assume "0 \<le> t \<and> t < lh_n tx_log"
    from two [OF this] p0 show
      "pinned tx_cache (word_of_int (ldev tx_log), lh_block tx_log (nat t)) (?Dt (nat t))"
      by (auto simp: lgv)
  qed
  have dis: "\<forall>t j. 0 \<le> t \<and> t < lh_n tx_log \<and> 0 \<le> j \<and> j \<le> lh_n tx_log \<longrightarrow>
      lh_block tx_log (nat t) \<noteq> word_of_int (lstart tx_log + j)"
  proof (intro allI impI)
    fix t j :: int assume a: "0 \<le> t \<and> t < lh_n tx_log \<and> 0 \<le> j \<and> j \<le> lh_n tx_log"
    then have t: "t = 0 \<or> t = 1" using two by simp
    from a lgv(1) have j: "j = 0 \<or> j = 1 \<or> j = 2" by auto
    from t j show "lh_block tx_log (nat t) \<noteq> word_of_int (lstart tx_log + j)"
      by (auto simp: lgv)
  qed
  have u: "uniq tx_cache (1, 3)" "uniq tx_cache (1, 4)"
    by (simp_all add: uniq_def ident_def tx_cache_def zero_buf_def)
  have un: "\<forall>t. 0 \<le> t \<and> t < lh_n tx_log \<longrightarrow>
      uniq tx_cache (word_of_int (ldev tx_log), word_of_int (lstart tx_log + t + 1))"
  proof (intro allI impI)
    fix t :: int assume "0 \<le> t \<and> t < lh_n tx_log"
    from two [OF this] u
    show "uniq tx_cache (word_of_int (ldev tx_log), word_of_int (lstart tx_log + t + 1))"
      by (auto simp: lgv)
  qed
  have n: "0 < lh_n tx_log" "0 \<le> lstart tx_log" "lstart tx_log + lh_n tx_log < 2 ^ 32"
    by (simp_all add: lgv)
  from commit_write_order [OF c n pins dis un] obtain H1 H2 where
    w: "writes s' = writes tx_cache
      @ map (\<lambda>t. (word_of_int (ldev tx_log), word_of_int (lstart tx_log + int t + 1), ?Dt t))
          [0..<nat (lh_n tx_log)]
      @ [(word_of_int (ldev tx_log), word_of_int (lstart tx_log), H1)]
      @ map (\<lambda>t. (word_of_int (ldev tx_log), lh_block tx_log t, ?Dt t)) [0..<nat (lh_n tx_log)]
      @ [(word_of_int (ldev tx_log), word_of_int (lstart tx_log), H2)]"
    and h: "H1 0 = word_of_int (lh_n tx_log)" "H2 0 = 0" and z: "lh_n lg' = 0"
    by blast
  have e: "[0..<nat 2] = [0, Suc 0]"
    by (simp add: upt_conv_Cons)
  from w have m: "map (\<lambda>(d, b, dt). (d, b, dt 0)) (writes s')
         = [(1, 3, 7), (1, 4, 9), (1, 2, 2), (1, 100, 7), (1, 200, 9), (1, 2, 0)]"
    unfolding lgv e w0 by (simp add: h lgv)
  show ?thesis
    by (rule exI [of _ lg'], rule exI [of _ s']) (simp add: c m z)
qed

end
